theory Spec2Isabelle
  imports Main "HOL-Library.Multiset"
begin

section \<open>Machine model\<close>

text \<open>
  The sorting engine of \<^verbatim>\<open>ex1/src/merge_quick_sort.c\<close> works on an array of opaque
  references (\<^verbatim>\<open>void **base\<close>) and a comparator (a function pointer returning an
  \<^verbatim>\<open>int\<close>).  References are values of an arbitrary type \<open>'a\<close>; the array lives in
  an explicit memory \<open>arr\<close>, and a pointer into it is the index of the element it points
  to, so that \<^verbatim>\<open>base + middle_i\<close> is addition on indices and \<^verbatim>\<open>base[i]\<close> is
  \<open>arr s ! (base + i)\<close>.  A null pointer is \<open>None\<close>.

  Besides the array the state holds what the code reaches through the C library: how many
  values \<^verbatim>\<open>rand()\<close> has handed out since the last \<^verbatim>\<open>srand\<close>, how many times
  \<^verbatim>\<open>malloc\<close> was called, and the lines written to \<^verbatim>\<open>stderr\<close>.  Two more fields only
  observe the run and never influence it: the number of comparator invocations and the log
  of the \<open>(low, high)\<close> arguments of every invocation of \<^verbatim>\<open>quick_sort_rec\<close>.

  Indices of type \<^verbatim>\<open>size_t\<close> are natural numbers.  The platform is LP64: \<^verbatim>\<open>size_t\<close>
  has 64 bits, \<^verbatim>\<open>int\<close> has 32 bits, and a conversion to \<^verbatim>\<open>int\<close> of a value that does
  not fit wraps modulo \<open>2^32\<close>.  The conversions of \<^verbatim>\<open>choose_random_pivot\<close> are written out.
  Elsewhere the code adds one to an index below \<^verbatim>\<open>high\<close> or \<^verbatim>\<open>nitems\<close>, or subtracts
  under a guard (\<^verbatim>\<open>pi - 1\<close> under \<^verbatim>\<open>pi > 0\<close>, \<^verbatim>\<open>nitems - 1\<close> under \<^verbatim>\<open>nitems > 0\<close>),
  where nothing wraps; and an array of \<open>n\<close> references occupies \<open>8 * n\<close> bytes of the
  address space, so for a range inside an array \<^verbatim>\<open>nitems * sizeof(void *)\<close> does not wrap
  either.
\<close>

type_synonym 'a compar = "'a \<Rightarrow> 'a \<Rightarrow> int"

record 'a mem =
  arr :: "'a list"
  rand_next :: nat
  malloc_next :: nat
  stderr :: "string list"
  compar_calls :: nat
  rec_calls :: "(nat \<times> nat) list"

text \<open>
  A call returns normally, ends the process through \<^verbatim>\<open>exit(EXIT_FAILURE)\<close> (the memory
  at that moment is kept), or has undefined behaviour: an access outside the array or the
  scratch buffer, or a remainder by zero.
\<close>

datatype ('a, 'r) outcome = Return 'r | Exit "'a mem" | Undefined

fun and_then :: "('a, 'r) outcome \<Rightarrow> ('r \<Rightarrow> ('a, 'q) outcome) \<Rightarrow> ('a, 'q) outcome" where
  "and_then (Return r) f = f r"
| "and_then (Exit s) f = Exit s"
| "and_then Undefined f = Undefined"

lemma and_then_cong [fundef_cong]:
  "m = m' \<Longrightarrow> (\<And>r. m' = Return r \<Longrightarrow> f r = f' r) \<Longrightarrow> and_then m f = and_then m' f'"
  by (cases m') auto

subsection \<open>Integer conversions\<close>

definition to_size_t :: "int \<Rightarrow> nat" where
  "to_size_t z = nat (z mod 2 ^ 64)"

definition to_int :: "int \<Rightarrow> int" where
  "to_int z = (let m = z mod 2 ^ 32 in if m < 2 ^ 31 then m else m - 2 ^ 32)"

text \<open>
  The operator \<^verbatim>\<open>%\<close> on \<^verbatim>\<open>int\<close>: the remainder of the division truncated towards
  zero; undefined for a zero divisor and for \<^verbatim>\<open>INT_MIN % -1\<close>.
\<close>

definition c_rem :: "int \<Rightarrow> int \<Rightarrow> int option" where
  "c_rem a b =
     (if b = 0 \<or> (a = - (2 ^ 31) \<and> b = - 1) then None
      else Some (sgn a * (\<bar>a\<bar> mod \<bar>b\<bar>)))"

section \<open>Quick sort\<close>

text \<open>\<^verbatim>\<open>swap(void **a, void **b)\<close>: the two pointers are indices into the array.\<close>

definition swap :: "nat \<Rightarrow> nat \<Rightarrow> 'a mem \<Rightarrow> ('a, 'a mem) outcome" where
  "swap a b s =
     (if a < length (arr s) \<and> b < length (arr s)
      then (let temp = arr s ! a;
                s1 = s\<lparr>arr := (arr s)[a := arr s ! b]\<rparr>
            in Return (s1\<lparr>arr := (arr s1)[b := temp]\<rparr>))
      else Undefined)"

text \<open>
  \<^verbatim>\<open>choose_random_pivot\<close>.  The stream \<open>rnd\<close> lists the values \<^verbatim>\<open>rand()\<close> returns after
  the seeding of the top-level call; \<open>rand_next\<close> is the position of the next one.
  \<open>pivot_index_of r low high\<close> is the value of the local variable \<^verbatim>\<open>pivot_index\<close> when
  \<^verbatim>\<open>rand()\<close> returns \<open>r\<close>:
  \<^verbatim>\<open>low + (size_t)(r % ((int)(high - low + 1)))\<close>.
\<close>

definition pivot_index_of :: "int \<Rightarrow> nat \<Rightarrow> nat \<Rightarrow> nat option" where
  "pivot_index_of r low high =
     (case c_rem r (to_int (int (to_size_t (int high - int low + 1)))) of
        None \<Rightarrow> None
      | Some m \<Rightarrow> Some (to_size_t (int low + int (to_size_t m))))"

definition choose_random_pivot ::
  "(nat \<Rightarrow> int) \<Rightarrow> nat \<Rightarrow> nat \<Rightarrow> nat \<Rightarrow> 'a mem \<Rightarrow> ('a, 'a mem) outcome" where
  "choose_random_pivot rnd base low high s =
     (let r = rnd (rand_next s);
          s1 = s\<lparr>rand_next := rand_next s + 1\<rparr>
      in case pivot_index_of r low high of
           None \<Rightarrow> Undefined
         | Some pivot_index \<Rightarrow> swap (base + pivot_index) (base + high) s1)"

text \<open>The \<^verbatim>\<open>for\<close> loop of \<^verbatim>\<open>partition\<close>, with its variables \<open>i\<close> and \<open>j\<close>.\<close>

function partition_loop ::
  "'a compar \<Rightarrow> nat \<Rightarrow> nat \<Rightarrow> 'a \<Rightarrow> nat \<Rightarrow> nat \<Rightarrow> 'a mem \<Rightarrow> ('a, 'a mem \<times> nat) outcome" where
  "partition_loop compar base high pivot i j s =
     (if j < high then
        (if base + j < length (arr s) then
           (let c = compar (arr s ! (base + j)) pivot;
                s1 = s\<lparr>compar_calls := compar_calls s + 1\<rparr>
            in if c < 0 then
                 and_then (swap (base + i) (base + j) s1)
                   (\<lambda>s2. partition_loop compar base high pivot (i + 1) (j + 1) s2)
               else partition_loop compar base high pivot i (j + 1) s1)
         else Undefined)
      else Return (s, i))"
  by pat_completeness auto
termination
  by (relation "measure (\<lambda>(compar, base, high, pivot, i, j, s). high - j)") auto

definition partition_c ::
  "nat \<Rightarrow> nat \<Rightarrow> nat \<Rightarrow> 'a compar \<Rightarrow> 'a mem \<Rightarrow> ('a, 'a mem \<times> nat) outcome" where
  "partition_c base low high compar s =
     (if base + high < length (arr s) then
        (let pivot = arr s ! (base + high)
         in and_then (partition_loop compar base high pivot low low s)
              (\<lambda>(s1, i). and_then (swap (base + i) (base + high) s1)
                 (\<lambda>s2. Return (s2, i))))
      else Undefined)"

declare partition_loop.simps [simp del]

text \<open>
  \<^verbatim>\<open>quick_sort_rec\<close> calls itself on \<open>[low, pi - 1]\<close> and \<open>[pi + 1, high]\<close>, where \<open>pi\<close>
  is what \<^verbatim>\<open>partition\<close> returned.  Both ranges are shorter than \<open>[low, high]\<close> because
  \<open>low \<le> pi \<le> high\<close>, which is shown first.  The call log is extended on entry.
\<close>

lemma and_then_Return:
  "and_then m f = Return r \<longleftrightarrow> (\<exists>x. m = Return x \<and> f x = Return r)"
  by (cases m) auto

lemma swap_Return:
  "swap a b s = Return s' \<longleftrightarrow>
     a < length (arr s) \<and> b < length (arr s) \<and> s' = s\<lparr>arr := (arr s)[a := arr s ! b, b := arr s ! a]\<rparr>"
  by (auto simp: swap_def Let_def)

lemma swap_not_Exit: "swap a b s \<noteq> Exit s'"
  by (simp add: swap_def Let_def)

lemma partition_loop_bounds:
  "partition_loop compar base high pivot i j s = Return (s', i') \<Longrightarrow> i \<le> j \<Longrightarrow> j \<le> high
   \<Longrightarrow> i \<le> i' \<and> i' \<le> high"
proof (induction compar base high pivot i j s rule: partition_loop.induct)
  case (1 compar base high pivot i j s)
  show ?case
  proof (cases "j < high")
    case False
    with "1.prems" show ?thesis by (simp add: partition_loop.simps[of _ _ high _ _ j])
  next
    case True
    note jh = True
    from "1.prems"(1) jh have inb: "base + j < length (arr s)"
      by (simp add: partition_loop.simps[of _ _ high _ _ j] split: if_splits)
    define s1 where "s1 = s\<lparr>compar_calls := compar_calls s + 1\<rparr>"
    show ?thesis
    proof (cases "compar (arr s ! (base + j)) pivot < 0")
      case True
      with "1.prems"(1) jh inb obtain s2 where
        sw: "swap (base + i) (base + j) s1 = Return s2" and
        rec: "partition_loop compar base high pivot (i + 1) (j + 1) s2 = Return (s', i')"
        by (cases "swap (base + i) (base + j) s1")
           (simp_all add: partition_loop.simps[of _ _ high _ i j] Let_def s1_def)
      from "1.IH"(1)[OF jh inb refl s1_def True sw rec] "1.prems" jh
      show ?thesis by simp
    next
      case False
      with "1.prems"(1) jh inb have
        rec: "partition_loop compar base high pivot i (j + 1) s1 = Return (s', i')"
        by (simp add: partition_loop.simps[of _ _ high _ i j] Let_def s1_def)
      from "1.IH"(2)[OF jh inb refl s1_def False rec] "1.prems" jh
      show ?thesis by simp
    qed
  qed
qed

lemma partition_bounds:
  "partition_c base low high compar s = Return (s', pi) \<Longrightarrow> low \<le> high \<Longrightarrow> low \<le> pi \<and> pi \<le> high"
  unfolding partition_c_def
  by (auto simp: Let_def and_then_Return split: if_splits dest: partition_loop_bounds)

function quick_sort_rec ::
  "(nat \<Rightarrow> int) \<Rightarrow> nat \<Rightarrow> nat \<Rightarrow> nat \<Rightarrow> 'a compar \<Rightarrow> 'a mem \<Rightarrow> ('a, 'a mem) outcome" where
  "quick_sort_rec rnd base low high compar s =
     (let s0 = s\<lparr>rec_calls := rec_calls s @ [(low, high)]\<rparr>
      in if low < high then
           and_then (choose_random_pivot rnd base low high s0) (\<lambda>s1.
           and_then (partition_c base low high compar s1) (\<lambda>(s2, pi).
           and_then (if pi > 0 then quick_sort_rec rnd base low (pi - 1) compar s2
                     else Return s2) (\<lambda>s3.
           quick_sort_rec rnd base (pi + 1) high compar s3)))
         else Return s0)"
  by pat_completeness auto
termination
proof (relation "measure (\<lambda>(rnd, base, low, high, compar, s). high + 1 - low)", goal_cases)
  case 1
  show ?case by simp
next
  case (2 rnd base low high compar s s0 s1 x s2 pi)
  from partition_bounds[of base low high compar s1 s2 pi] 2 show ?case by auto
next
  case (3 rnd base low high compar s s0 s1 x s2 pi s3)
  from partition_bounds[of base low high compar s1 s2 pi] 3 show ?case by auto
qed

text \<open>
  The top-level entry point.  A null pointer is \<open>None\<close>.  \<^verbatim>\<open>srand\<close> restarts the
  stream of random values, which \<open>rnd\<close> lists for the seed of this call.
\<close>

definition quick_sort ::
  "(nat \<Rightarrow> int) \<Rightarrow> nat option \<Rightarrow> nat \<Rightarrow> 'a compar option \<Rightarrow> 'a mem \<Rightarrow> ('a, 'a mem) outcome" where
  "quick_sort rnd base nitems compar s =
     (if base = None \<or> compar = None then
        Return (s\<lparr>stderr := stderr s @ [''quick_sort: base and compar cannot be NULL'' @ [CHR 0x0A]]\<rparr>)
      else if nitems > 0 then
        quick_sort_rec rnd (the base) 0 (nitems - 1) (the compar) (s\<lparr>rand_next := 0\<rparr>)
      else Return s)"

section \<open>Merge sort\<close>

text \<open>
  The scratch buffer \<^verbatim>\<open>temp\<close> of \<^verbatim>\<open>merge\<close> has \<^verbatim>\<open>nitems\<close> slots, of which the first
  \<^verbatim>\<open>k\<close> are filled: the model keeps the filled part as a list, \<^verbatim>\<open>k\<close> is its length and
  \<^verbatim>\<open>temp[k++] = v\<close> appends \<open>v\<close>.  Writing beyond the last slot is undefined.
\<close>

definition store_temp :: "nat \<Rightarrow> 'a list \<Rightarrow> 'a \<Rightarrow> 'a list option" where
  "store_temp nitems temp v = (if length temp < nitems then Some (temp @ [v]) else None)"

text \<open>The first \<^verbatim>\<open>while\<close> loop: both cursors are inside their sub-ranges.\<close>

function merge_loop1 ::
  "'a compar \<Rightarrow> nat \<Rightarrow> nat \<Rightarrow> nat \<Rightarrow> nat \<Rightarrow> nat \<Rightarrow> 'a list \<Rightarrow> 'a mem
   \<Rightarrow> ('a, nat \<times> nat \<times> 'a list \<times> 'a mem) outcome" where
  "merge_loop1 compar base nitems middle_i i j temp s =
     (if i < middle_i \<and> j < nitems then
        (if base + i < length (arr s) \<and> base + j < length (arr s) then
           (let c = compar (arr s ! (base + i)) (arr s ! (base + j));
                s1 = s\<lparr>compar_calls := compar_calls s + 1\<rparr>
            in if c \<le> 0 then
                 (case store_temp nitems temp (arr s1 ! (base + i)) of
                    None \<Rightarrow> Undefined
                  | Some temp1 \<Rightarrow> merge_loop1 compar base nitems middle_i (i + 1) j temp1 s1)
               else
                 (case store_temp nitems temp (arr s1 ! (base + j)) of
                    None \<Rightarrow> Undefined
                  | Some temp1 \<Rightarrow> merge_loop1 compar base nitems middle_i i (j + 1) temp1 s1))
         else Undefined)
      else Return (i, j, temp, s))"
  by pat_completeness auto
termination
  by (relation "measure (\<lambda>(compar, base, nitems, middle_i, i, j, temp, s).
                   (middle_i - i) + (nitems - j))") auto

text \<open>The second and third loops drain what is left of one sub-range.\<close>

function merge_loop2 ::
  "nat \<Rightarrow> nat \<Rightarrow> nat \<Rightarrow> nat \<Rightarrow> 'a list \<Rightarrow> 'a mem \<Rightarrow> ('a, nat \<times> 'a list) outcome" where
  "merge_loop2 base nitems middle_i i temp s =
     (if i < middle_i then
        (if base + i < length (arr s) then
           (case store_temp nitems temp (arr s ! (base + i)) of
              None \<Rightarrow> Undefined
            | Some temp1 \<Rightarrow> merge_loop2 base nitems middle_i (i + 1) temp1 s)
         else Undefined)
      else Return (i, temp))"
  by pat_completeness auto
termination
  by (relation "measure (\<lambda>(base, nitems, middle_i, i, temp, s). middle_i - i)") auto

function merge_loop3 ::
  "nat \<Rightarrow> nat \<Rightarrow> nat \<Rightarrow> 'a list \<Rightarrow> 'a mem \<Rightarrow> ('a, nat \<times> 'a list) outcome" where
  "merge_loop3 base nitems j temp s =
     (if j < nitems then
        (if base + j < length (arr s) then
           (case store_temp nitems temp (arr s ! (base + j)) of
              None \<Rightarrow> Undefined
            | Some temp1 \<Rightarrow> merge_loop3 base nitems (j + 1) temp1 s)
         else Undefined)
      else Return (j, temp))"
  by pat_completeness auto
termination
  by (relation "measure (\<lambda>(base, nitems, j, temp, s). nitems - j)") auto

text \<open>
  \<^verbatim>\<open>memcpy(base, temp, nitems * sizeof(void *))\<close> copies all \<^verbatim>\<open>nitems\<close> slots of the
  scratch buffer over the range; it is undefined when the range leaves the array, and the
  copy of a slot that was never written has no defined value.
\<close>

definition memcpy :: "nat \<Rightarrow> 'a list \<Rightarrow> nat \<Rightarrow> 'a mem \<Rightarrow> ('a, 'a mem) outcome" where
  "memcpy base temp nitems s =
     (if base + nitems \<le> length (arr s) \<and> length temp = nitems
      then Return (s\<lparr>arr := take base (arr s) @ temp @ drop (base + nitems) (arr s)\<rparr>)
      else Undefined)"

text \<open>
  \<^verbatim>\<open>merge\<close>.  Whether the \<open>k\<close>-th call of \<^verbatim>\<open>malloc\<close> of the run succeeds is given by
  \<open>alloc k\<close>.  When it fails the code prints a line and calls \<^verbatim>\<open>exit(EXIT_FAILURE)\<close>.
\<close>

definition merge ::
  "(nat \<Rightarrow> bool) \<Rightarrow> nat \<Rightarrow> nat \<Rightarrow> nat \<Rightarrow> 'a compar \<Rightarrow> 'a mem \<Rightarrow> ('a, 'a mem) outcome" where
  "merge alloc base nitems middle_i compar s =
     (let s0 = s\<lparr>malloc_next := malloc_next s + 1\<rparr>
      in if \<not> alloc (malloc_next s) then
           Exit (s0\<lparr>stderr := stderr s0 @ [''merge: memory allocation failed'' @ [CHR 0x0A]]\<rparr>)
         else
           and_then (merge_loop1 compar base nitems middle_i 0 middle_i [] s0) (\<lambda>(i, j, temp1, s1).
           and_then (merge_loop2 base nitems middle_i i temp1 s1) (\<lambda>(i', temp2).
           and_then (merge_loop3 base nitems j temp2 s1) (\<lambda>(j', temp3).
           memcpy base temp3 nitems s1))))"

function merge_sort_rec ::
  "(nat \<Rightarrow> bool) \<Rightarrow> nat \<Rightarrow> nat \<Rightarrow> 'a compar \<Rightarrow> 'a mem \<Rightarrow> ('a, 'a mem) outcome" where
  "merge_sort_rec alloc base nitems compar s =
     (if nitems > 1 then
        (let middle_i = nitems div 2
         in and_then (merge_sort_rec alloc base middle_i compar s) (\<lambda>s1.
            and_then (merge_sort_rec alloc (base + middle_i) (nitems - middle_i) compar s1) (\<lambda>s2.
            merge alloc base nitems middle_i compar s2)))
      else Return s)"
  by pat_completeness auto
termination
  by (relation "measure (\<lambda>(alloc, base, nitems, compar, s). nitems)") auto

definition merge_sort ::
  "(nat \<Rightarrow> bool) \<Rightarrow> nat option \<Rightarrow> nat \<Rightarrow> 'a compar option \<Rightarrow> 'a mem \<Rightarrow> ('a, 'a mem) outcome" where
  "merge_sort alloc base nitems compar s =
     (if base = None \<or> compar = None then
        Return (s\<lparr>stderr := stderr s @ [''merge_sort: base and compar cannot be NULL'' @ [CHR 0x0A]]\<rparr>)
      else if nitems \<ge> 2 then
        merge_sort_rec alloc (the base) nitems (the compar) s
      else Return s)"

declare quick_sort_rec.simps [simp del] merge_loop1.simps [simp del]
  merge_loop2.simps [simp del] merge_loop3.simps [simp del] merge_sort_rec.simps [simp del]

section \<open>Comparators, sorted lists and example inputs\<close>

text \<open>
  A comparator is valid when its sign is that of a total preorder: \<open>c x y < 0\<close> exactly when
  \<open>c y x > 0\<close>, and \<open>c x y \<le> 0\<close> is transitive.  (Then \<open>c x x = 0\<close>, and any two
  references are comparable.)
\<close>

definition valid_comparator :: "'a compar \<Rightarrow> bool" where
  "valid_comparator c \<longleftrightarrow>
     (\<forall>x y. (c x y < 0) = (c y x > 0)) \<and>
     (\<forall>x y z. c x y \<le> 0 \<and> c y z \<le> 0 \<longrightarrow> c x z \<le> 0)"

definition le :: "'a compar \<Rightarrow> 'a \<Rightarrow> 'a \<Rightarrow> bool" where
  "le c x y \<longleftrightarrow> c x y \<le> 0"

text \<open>
  What \<^verbatim>\<open>merge\<close> and \<^verbatim>\<open>merge_sort_rec\<close> compute, as functions on lists.  They are not
  part of the program: the array code is shown to compute them, and order, content and
  stability are then proved on lists.
\<close>

fun lmerge :: "'a compar \<Rightarrow> 'a list \<Rightarrow> 'a list \<Rightarrow> 'a list" where
  "lmerge c [] rs = rs"
| "lmerge c ls [] = ls"
| "lmerge c (l # ls) (r # rs) =
     (if c l r \<le> 0 then l # lmerge c ls (r # rs) else r # lmerge c (l # ls) rs)"

function msort :: "'a compar \<Rightarrow> 'a list \<Rightarrow> 'a list" where
  "msort c xs =
     (if length xs > 1
      then lmerge c (msort c (take (length xs div 2) xs)) (msort c (drop (length xs div 2) xs))
      else xs)"
  by pat_completeness auto
termination
  by (relation "measure (\<lambda>(c, xs). length xs)") auto

declare msort.simps [simp del]

text \<open>
  A memory holding the array \<open>xs\<close> with nothing else done yet, and a comparator on
  integers, used to run the theorems below on concrete inputs.
\<close>

definition mem0 :: "'a list \<Rightarrow> 'a mem" where
  "mem0 xs = \<lparr>arr = xs, rand_next = 0, malloc_next = 0, stderr = [], compar_calls = 0,
              rec_calls = []\<rparr>"

definition by_value :: "int compar" where
  "by_value x y = (if x < y then - 1 else if x = y then 0 else 1)"

text \<open>A comparator on pairs that looks at the first component only: it has ties.\<close>

definition by_key :: "(int \<times> int) compar" where
  "by_key x y = by_value (fst x) (fst y)"

section \<open>Facts about valid comparators\<close>

lemma valid_comparator_neg:
  "valid_comparator c \<Longrightarrow> (c x y < 0) = (0 < c y x)"
  by (simp add: valid_comparator_def)

lemma valid_comparator_sym0:
  "valid_comparator c \<Longrightarrow> c x y = 0 \<Longrightarrow> c y x = 0"
  using valid_comparator_neg[of c x y] valid_comparator_neg[of c y x] by simp

lemma valid_comparator_gt:
  "valid_comparator c \<Longrightarrow> \<not> c x y \<le> 0 \<Longrightarrow> c y x < 0"
  using valid_comparator_neg[of c y x] by simp

lemma valid_comparator_refl:
  "valid_comparator c \<Longrightarrow> c x x = 0"
  using valid_comparator_neg[of c x x] by (cases "c x x < 0") auto

lemma valid_comparator_flip:
  "valid_comparator c \<Longrightarrow> \<not> c x y < 0 \<Longrightarrow> c y x \<le> 0"
  using valid_comparator_neg[of c x y] by simp

lemma valid_comparator_trans:
  "valid_comparator c \<Longrightarrow> c x y \<le> 0 \<Longrightarrow> c y z \<le> 0 \<Longrightarrow> c x z \<le> 0"
  unfolding valid_comparator_def by blast

lemma valid_comparator_eq_trans:
  assumes "valid_comparator c" "c x y = 0" "c y z = 0"
  shows "c x z = 0"
proof -
  have 1: "c x z \<le> 0" using valid_comparator_trans[OF assms(1), of x y z] assms by simp
  have "c z y = 0" "c y x = 0"
    using assms valid_comparator_sym0[of c y z] valid_comparator_sym0[of c x y] by simp_all
  then have "c z x \<le> 0" using valid_comparator_trans[OF assms(1), of z y x] by simp
  then have "\<not> c x z < 0" using valid_comparator_neg[OF assms(1), of x z] by simp
  then show ?thesis using 1 by simp
qed

lemma valid_comparator_both:
  "valid_comparator c \<Longrightarrow> c x y \<le> 0 \<Longrightarrow> c y x \<le> 0 \<Longrightarrow> c x y = 0"
  using valid_comparator_neg[of c x y] by simp

lemma le_eq: "le c = (\<lambda>x y. c x y \<le> 0)"
  by (intro ext) (simp add: le_def)

lemma valid_by_value: "valid_comparator by_value"
  by (auto simp: valid_comparator_def by_value_def)

lemma valid_by_key: "valid_comparator by_key"
  by (auto simp: valid_comparator_def by_key_def by_value_def)

section \<open>Ranges of the array as sublists\<close>

text \<open>
  A range of the array is described by a decomposition \<open>arr s = P @ X @ S\<close>: \<open>X\<close> is the
  range, \<open>P\<close> what lies before it and \<open>S\<close> what lies behind it.
\<close>

lemma frame_outside:
  assumes len: "length ys = length P + length X + length S"
    and out: "\<forall>k. k < length P \<or> length P + length X \<le> k \<longrightarrow> ys ! k = (P @ X @ S) ! k"
  shows "ys = P @ take (length X) (drop (length P) ys) @ S"
proof -
  have t: "take (length P) ys = P"
  proof (rule nth_equalityI)
    show "length (take (length P) ys) = length P" using len by simp
  next
    fix i assume "i < length (take (length P) ys)"
    then have i: "i < length P" by simp
    then show "take (length P) ys ! i = P ! i" using out by (simp add: nth_append)
  qed
  have d: "drop (length P + length X) ys = S"
  proof (rule nth_equalityI)
    show "length (drop (length P + length X) ys) = length S" using len by simp
  next
    fix i assume "i < length (drop (length P + length X) ys)"
    then have i: "i < length S" using len by simp
    have "ys ! (length P + length X + i) = (P @ X @ S) ! (length P + length X + i)"
      using out by simp
    also have "\<dots> = S ! i" by (simp add: nth_append)
    finally show "drop (length P + length X) ys ! i = S ! i" using len i by simp
  qed
  have "ys = take (length P) ys @ drop (length P) ys" by simp
  also have "drop (length P) ys =
      take (length X) (drop (length P) ys) @ drop (length X) (drop (length P) ys)"
    by (rule append_take_drop_id[symmetric])
  also have "drop (length X) (drop (length P) ys) = S" using d by (simp add: add.commute)
  finally show ?thesis using t by simp
qed

lemma frame_mset:
  assumes "ys = P @ X' @ S" "mset ys = mset (P @ X @ S)"
  shows "mset X' = mset X"
  using assms by simp

lemma frame_nth:
  "k < length X \<Longrightarrow> (P @ X @ S) ! (length P + k) = X ! k"
  by (simp add: nth_append)

lemma frame_split:
  "xs = take a xs @ take n (drop a xs) @ drop n (drop a xs)"
proof -
  have "xs = take a xs @ drop a xs" by (rule append_take_drop_id[symmetric])
  also have "drop a xs = take n (drop a xs) @ drop n (drop a xs)"
    by (rule append_take_drop_id[symmetric])
  finally show ?thesis .
qed

lemma frame_range:
  "ys = P @ X @ S \<Longrightarrow> take (length X) (drop (length P) ys) = X"
  by simp

lemma range_mset_unchanged:
  assumes "length ys = length xs" "mset ys = mset xs" "a + n \<le> length xs"
    and "\<forall>k. k < a \<or> a + n \<le> k \<longrightarrow> ys ! k = xs ! k"
  shows "mset (take n (drop a ys)) = mset (take n (drop a xs))"
proof -
  define P where "P = take a xs"
  define X where "X = take n (drop a xs)"
  define S where "S = drop n (drop a xs)"
  define X' where "X' = take n (drop a ys)"
  have lP: "length P = a" and lX: "length X = n"
    using assms(3) by (simp_all add: P_def X_def)
  have dec: "xs = P @ X @ S" unfolding P_def X_def S_def by (rule frame_split)
  have len: "length ys = length P + length X + length S" using assms(1) dec by simp
  have out: "\<forall>k. k < length P \<or> length P + length X \<le> k \<longrightarrow> ys ! k = (P @ X @ S) ! k"
    using assms(4) unfolding dec[symmetric] lP lX by auto
  have fr: "ys = P @ X' @ S"
    using frame_outside[OF len out] unfolding lP lX X'_def .
  have "mset (P @ X' @ S) = mset (P @ X @ S)" using assms(2) fr dec by simp
  then show ?thesis unfolding X'_def X_def by simp
qed

section \<open>The pivot selector\<close>

lemma c_rem_nonneg:
  assumes "0 \<le> r" "0 < n" "n < 2 ^ 32"
  shows "\<exists>m. c_rem r (to_int n) = Some m \<and> 0 \<le> m \<and> m < n"
proof -
  have nz: "to_int n \<noteq> 0" and ab: "\<bar>to_int n\<bar> \<le> n" and ab0: "0 < \<bar>to_int n\<bar>"
    using assms by (auto simp: to_int_def Let_def)
  have r: "sgn r * (\<bar>r\<bar> mod \<bar>to_int n\<bar>) = r mod \<bar>to_int n\<bar>"
    using assms(1) by (cases "r = 0") auto
  have "r mod \<bar>to_int n\<bar> < \<bar>to_int n\<bar>" using ab0 by simp
  moreover have "0 \<le> r mod \<bar>to_int n\<bar>" using ab0 by simp
  moreover have "c_rem r (to_int n) = Some (r mod \<bar>to_int n\<bar>)"
    using nz assms(1) by (simp only: c_rem_def r) simp
  ultimately show ?thesis using ab by simp
qed

lemma pivot_index_of_in_range:
  assumes "low \<le> high" "high - low + 1 < 2 ^ 32" "high < 2 ^ 64" "0 \<le> r"
  shows "\<exists>p. pivot_index_of r low high = Some p \<and> low \<le> p \<and> p \<le> high"
proof -
  define n where "n = int high - int low + 1"
  have n: "0 < n" "n < 2 ^ 32" "n < 2 ^ 64" "n = int (high - low + 1)"
    using assms(1,2) by (auto simp: n_def)
  have sz: "int (to_size_t n) = n" using n by (simp add: to_size_t_def)
  from c_rem_nonneg[OF assms(4) n(1,2)] obtain m where
    m: "c_rem r (to_int n) = Some m" "0 \<le> m" "m < n" by blast
  define p where "p = low + nat m"
  have p: "low \<le> p" "p \<le> high" using m n(4) assms(1) by (auto simp: p_def)
  have "int low + int (to_size_t m) = int p" using m n by (simp add: to_size_t_def p_def)
  moreover have "int p < 2 ^ 64" using p assms(3) by simp
  ultimately have "to_size_t (int low + int (to_size_t m)) = p"
    by (simp add: to_size_t_def)
  then have "pivot_index_of r low high = Some p"
    using m(1) sz by (simp add: pivot_index_of_def n_def)
  then show ?thesis using p by blast
qed

lemma pivot_index_of_zero_length:
  "high - low + 1 = 2 ^ 32 \<Longrightarrow> pivot_index_of r low high = None"
proof -
  assume a: "high - low + 1 = 2 ^ 32"
  then have "low \<le> high" by (cases "low \<le> high") auto
  then have "int high - int low + 1 = int (high - low + 1)" by simp
  also have "\<dots> = 2 ^ 32" using a by simp
  finally have "int high - int low + 1 = 2 ^ 32" .
  then show ?thesis
    by (simp add: pivot_index_of_def to_size_t_def to_int_def c_rem_def)
qed

lemma choose_random_pivot_spec:
  assumes "low \<le> high" "high - low + 1 < 2 ^ 32" "high < 2 ^ 64"
    and "0 \<le> rnd (rand_next s)" "base + high < length (arr s)"
  shows "\<exists>p. pivot_index_of (rnd (rand_next s)) low high = Some p \<and> low \<le> p \<and> p \<le> high \<and>
           choose_random_pivot rnd base low high s =
             Return (s\<lparr>arr := (arr s)[base + p := arr s ! (base + high),
                                       base + high := arr s ! (base + p)],
                       rand_next := rand_next s + 1\<rparr>)"
proof -
  from pivot_index_of_in_range[OF assms(1-4)] obtain p where
    p: "pivot_index_of (rnd (rand_next s)) low high = Some p" "low \<le> p" "p \<le> high" by blast
  have inb: "base + p < length (arr s)" using p assms(5) by simp
  have "choose_random_pivot rnd base low high s =
             Return (s\<lparr>arr := (arr s)[base + p := arr s ! (base + high),
                                       base + high := arr s ! (base + p)],
                       rand_next := rand_next s + 1\<rparr>)"
    using p(1) inb assms(5) by (simp add: choose_random_pivot_def Let_def swap_def)
  then show ?thesis using p by blast
qed

lemma choose_random_pivot_frame:
  assumes "low \<le> high" "high + 1 < 2 ^ 32" "0 \<le> rnd (rand_next s)"
    and "arr s = P @ X @ S" "length P = base + low" "length X = high + 1 - low"
  shows "\<exists>X'. choose_random_pivot rnd base low high s =
             Return (s\<lparr>arr := P @ X' @ S, rand_next := rand_next s + 1\<rparr>)
           \<and> length X' = length X \<and> mset X' = mset X"
proof -
  have inb: "base + high < length (arr s)" using assms by simp
  have "(2::nat) ^ 32 \<le> 2 ^ 64" by simp
  then have h64: "high < 2 ^ 64" using assms(2) by linarith
  have h32: "high - low + 1 < 2 ^ 32" using assms(1,2) by linarith
  from choose_random_pivot_spec[where low=low and high=high and rnd=rnd and s=s and base=base,
      OF assms(1) h32 h64 assms(3) inb] obtain p where
    p: "low \<le> p" "p \<le> high" and
    eq: "choose_random_pivot rnd base low high s =
           Return (s\<lparr>arr := (arr s)[base + p := arr s ! (base + high),
                                     base + high := arr s ! (base + p)],
                     rand_next := rand_next s + 1\<rparr>)" by blast
  define ys where "ys = (arr s)[base + p := arr s ! (base + high), base + high := arr s ! (base + p)]"
  define X' where "X' = take (length X) (drop (length P) ys)"
  have len: "length ys = length P + length X + length S"
    using assms(4) by (simp add: ys_def)
  have out: "\<forall>k. k < length P \<or> length P + length X \<le> k \<longrightarrow> ys ! k = (P @ X @ S) ! k"
    using p assms(1,5,6) unfolding assms(4)[symmetric] ys_def by (auto simp: nth_list_update)
  have fr: "ys = P @ X' @ S" unfolding X'_def by (rule frame_outside[OF len out])
  have "mset ys = mset (arr s)"
    unfolding ys_def using mset_swap[of "base + high" "arr s" "base + p"] inb p by simp
  then have ms: "mset X' = mset X" using fr assms(4) by simp
  have "length X' = length X" using len by (simp add: X'_def)
  then show ?thesis using eq ms fr unfolding ys_def[symmetric] by (intro exI[of _ X']) simp
qed

text \<open>
  The same without a bound on the length of the range: the remainder is undefined exactly
  when \<^verbatim>\<open>(int)(high - low + 1)\<close> is \<open>0\<close>, which needs a range of at least \<open>2^32\<close>
  elements; otherwise the index is inside the range.
\<close>

lemma to_int_abs: "\<bar>to_int z\<bar> \<le> 2 ^ 31"
proof -
  have "0 \<le> z mod 2 ^ 32" "z mod 2 ^ 32 < 2 ^ 32" by simp_all
  then show ?thesis by (auto simp: to_int_def Let_def)
qed

lemma c_rem_cases:
  assumes "0 \<le> r"
  shows "(c_rem r d = None \<and> d = 0) \<or> (\<exists>m. c_rem r d = Some m \<and> 0 \<le> m \<and> m < \<bar>d\<bar>)"
proof (cases "d = 0")
  case True
  then show ?thesis by (simp add: c_rem_def)
next
  case False
  then have ab0: "0 < \<bar>d\<bar>" by simp
  have r: "sgn r * (\<bar>r\<bar> mod \<bar>d\<bar>) = r mod \<bar>d\<bar>"
    using assms by (cases "r = 0") auto
  have "c_rem r d = Some (r mod \<bar>d\<bar>)"
    using False assms by (simp only: c_rem_def r) simp
  moreover have "0 \<le> r mod \<bar>d\<bar>" "r mod \<bar>d\<bar> < \<bar>d\<bar>" using ab0 by simp_all
  ultimately show ?thesis by blast
qed

lemma pivot_index_of_cases:
  assumes "low \<le> high" "high + 1 < 2 ^ 64" "0 \<le> r"
  shows "(pivot_index_of r low high = None \<and> 2 ^ 32 \<le> high + 1 - low)
         \<or> (\<exists>p. pivot_index_of r low high = Some p \<and> low \<le> p \<and> p \<le> high)"
proof (cases "high - low + 1 < 2 ^ 32")
  case True
  have "high < 2 ^ 64" using assms(2) by simp
  from pivot_index_of_in_range[OF assms(1) True this assms(3)] show ?thesis by blast
next
  case False
  then have big: "2 ^ 32 \<le> high + 1 - low" using assms(1) by simp
  define n where "n = int high - int low + 1"
  have n: "0 < n" "n = int (high - low + 1)" using assms(1) by (auto simp: n_def)
  have "int (high + 1) < 2 ^ 64" using assms(2) by (metis of_nat_less_iff of_nat_numeral of_nat_power)
  then have n64: "n < 2 ^ 64" by (simp add: n_def)
  have nbig: "2 ^ 32 \<le> n"
  proof -
    have "int (2 ^ 32) \<le> int (high + 1 - low)" using big by (simp only: of_nat_le_iff)
    then show ?thesis using assms(1) by (simp add: n_def)
  qed
  have sz: "int (to_size_t n) = n" using n n64 by (simp add: to_size_t_def)
  from c_rem_cases[OF assms(3), of "to_int n"]
  show ?thesis
  proof
    assume "c_rem r (to_int n) = None \<and> to_int n = 0"
    then have "c_rem r (to_int (int (to_size_t n))) = None" unfolding sz by (simp add: c_rem_def)
    then have "pivot_index_of r low high = None"
      unfolding pivot_index_of_def n_def by simp
    then show ?thesis using big by simp
  next
    assume "\<exists>m. c_rem r (to_int n) = Some m \<and> 0 \<le> m \<and> m < \<bar>to_int n\<bar>"
    then obtain m where m: "c_rem r (to_int n) = Some m" "0 \<le> m" "m < \<bar>to_int n\<bar>" by blast
    have m31: "m < 2 ^ 31" using m(3) to_int_abs[of n] by linarith
    have "(2::int) ^ 31 < 2 ^ 32" by simp
    then have mn: "m < n" using nbig m31 by linarith
    define p where "p = low + nat m"
    have p: "low \<le> p" "p \<le> high" using m mn n(2) assms(1) by (auto simp: p_def)
    have "int low + int (to_size_t m) = int p" using m m31 by (simp add: to_size_t_def p_def)
    moreover have "int p < 2 ^ 64" using p assms(2) by simp
    ultimately have "to_size_t (int low + int (to_size_t m)) = p"
      by (simp add: to_size_t_def)
    then have "pivot_index_of r low high = Some p"
      using m(1) sz by (simp add: pivot_index_of_def n_def)
    then show ?thesis using p by blast
  qed
qed

lemma choose_random_pivot_cases:
  assumes "low \<le> high" "high + 1 < 2 ^ 64" "0 \<le> rnd (rand_next s)"
    and "arr s = P @ X @ S" "length P = base + low" "length X = high + 1 - low"
  shows "(choose_random_pivot rnd base low high s = Undefined \<and> 2 ^ 32 \<le> high + 1 - low)
         \<or> (\<exists>X'. choose_random_pivot rnd base low high s =
               Return (s\<lparr>arr := P @ X' @ S, rand_next := rand_next s + 1\<rparr>)
             \<and> length X' = length X \<and> mset X' = mset X)"
proof -
  have inb: "base + high < length (arr s)" using assms by simp
  from pivot_index_of_cases[OF assms(1,2,3)]
  show ?thesis
  proof
    assume "pivot_index_of (rnd (rand_next s)) low high = None \<and> 2 ^ 32 \<le> high + 1 - low"
    then show ?thesis by (simp add: choose_random_pivot_def Let_def)
  next
    assume "\<exists>p. pivot_index_of (rnd (rand_next s)) low high = Some p \<and> low \<le> p \<and> p \<le> high"
    then obtain p where pv: "pivot_index_of (rnd (rand_next s)) low high = Some p"
      and p: "low \<le> p" "p \<le> high" by blast
    have inp: "base + p < length (arr s)" using p inb by simp
    have eq: "choose_random_pivot rnd base low high s =
           Return (s\<lparr>arr := (arr s)[base + p := arr s ! (base + high),
                                     base + high := arr s ! (base + p)],
                     rand_next := rand_next s + 1\<rparr>)"
      using pv inp inb by (simp add: choose_random_pivot_def Let_def swap_def)
    define ys where "ys = (arr s)[base + p := arr s ! (base + high), base + high := arr s ! (base + p)]"
    define X' where "X' = take (length X) (drop (length P) ys)"
    have len: "length ys = length P + length X + length S"
      using assms(4) by (simp add: ys_def)
    have out: "\<forall>k. k < length P \<or> length P + length X \<le> k \<longrightarrow> ys ! k = (P @ X @ S) ! k"
      using p assms(1,5,6) unfolding assms(4)[symmetric] ys_def by (auto simp: nth_list_update)
    have fr: "ys = P @ X' @ S" unfolding X'_def by (rule frame_outside[OF len out])
    have "mset ys = mset (arr s)"
      unfolding ys_def using mset_swap[of "base + high" "arr s" "base + p"] inb inp by simp
    then have ms: "mset X' = mset X" using fr assms(4) by simp
    have "length X' = length X" using len by (simp add: X'_def)
    then have "\<exists>X'. choose_random_pivot rnd base low high s =
               Return (s\<lparr>arr := P @ X' @ S, rand_next := rand_next s + 1\<rparr>)
             \<and> length X' = length X \<and> mset X' = mset X"
      using eq ms fr unfolding ys_def[symmetric] by (intro exI[of _ X']) simp
    then show ?thesis by (rule disjI2)
  qed
qed

section \<open>The partitioner\<close>

lemma partition_loop_spec:
  assumes "i \<le> j" "j \<le> high" "base + high < length (arr s)"
    and "\<forall>k. i \<le> k \<and> k < j \<longrightarrow> \<not> compar (arr s ! (base + k)) pivot < 0"
  shows "\<exists>xs i'. partition_loop compar base high pivot i j s =
             Return (s\<lparr>arr := xs, compar_calls := compar_calls s + (high - j)\<rparr>, i')
           \<and> i \<le> i' \<and> i' \<le> high
           \<and> length xs = length (arr s) \<and> mset xs = mset (arr s)
           \<and> (\<forall>k. k < base + i \<or> base + high \<le> k \<longrightarrow> xs ! k = arr s ! k)
           \<and> (\<forall>k. i \<le> k \<and> k < i' \<longrightarrow> compar (xs ! (base + k)) pivot < 0)
           \<and> (\<forall>k. i' \<le> k \<and> k < high \<longrightarrow> \<not> compar (xs ! (base + k)) pivot < 0)"
  using assms
proof (induction compar base high pivot i j s rule: partition_loop.induct)
  case (1 compar base high pivot i j s)
  show ?case
  proof (cases "j < high")
    case False
    with "1.prems" have "j = high" by simp
    then show ?thesis using "1.prems"
      by (intro exI[of _ "arr s"] exI[of _ i]) (simp add: partition_loop.simps[of _ _ high _ _ high])
  next
    case True
    note jh = True
    from jh "1.prems" have inb: "base + j < length (arr s)" "base + i < length (arr s)" by simp_all
    define s1 where "s1 = s\<lparr>compar_calls := compar_calls s + 1\<rparr>"
    have cnt: "compar_calls s + 1 + (high - (j + 1)) = compar_calls s + (high - j)"
      using jh by arith
    show ?thesis
    proof (cases "compar (arr s ! (base + j)) pivot < 0")
      case True
      define ys where "ys = (arr s)[base + i := arr s ! (base + j), base + j := arr s ! (base + i)]"
      define s2 where "s2 = s1\<lparr>arr := ys\<rparr>"
      have sw: "swap (base + i) (base + j) s1 = Return s2"
        using inb by (simp add: swap_Return s2_def s1_def ys_def)
      have arr2: "arr s2 = ys" by (simp add: s2_def)
      have len2: "length ys = length (arr s)" by (simp add: ys_def)
      have mset2: "mset ys = mset (arr s)"
        unfolding ys_def using mset_swap[of "base + j" "arr s" "base + i"] inb by simp
      have inv2: "\<forall>k. i + 1 \<le> k \<and> k < j + 1 \<longrightarrow> \<not> compar (arr s2 ! (base + k)) pivot < 0"
        using "1.prems" inb by (auto simp: arr2 ys_def nth_list_update)
      have pre: "i + 1 \<le> j + 1" "j + 1 \<le> high" "base + high < length (arr s2)"
        using "1.prems" jh len2 by (simp_all add: arr2)
      from "1.IH"(1)[OF jh inb(1) refl s1_def True sw pre inv2]
      obtain xs i' where
        r: "partition_loop compar base high pivot (i + 1) (j + 1) s2 =
              Return (s2\<lparr>arr := xs, compar_calls := compar_calls s2 + (high - (j + 1))\<rparr>, i')"
        and b: "i + 1 \<le> i'" "i' \<le> high"
        and l: "length xs = length (arr s2)" and m: "mset xs = mset (arr s2)"
        and u: "\<forall>k. k < base + (i + 1) \<or> base + high \<le> k \<longrightarrow> xs ! k = arr s2 ! k"
        and lt: "\<forall>k. i + 1 \<le> k \<and> k < i' \<longrightarrow> compar (xs ! (base + k)) pivot < 0"
        and ge: "\<forall>k. i' \<le> k \<and> k < high \<longrightarrow> \<not> compar (xs ! (base + k)) pivot < 0"
        by blast
      have st: "s2\<lparr>arr := xs, compar_calls := compar_calls s2 + (high - (j + 1))\<rparr>
                = s\<lparr>arr := xs, compar_calls := compar_calls s + (high - j)\<rparr>"
        using cnt by (simp add: s2_def s1_def)
      have eq: "partition_loop compar base high pivot i j s =
                  Return (s\<lparr>arr := xs, compar_calls := compar_calls s + (high - j)\<rparr>, i')"
        using jh inb True sw r unfolding st
        by (simp add: partition_loop.simps[of _ _ high _ i j] Let_def s1_def)
      have u': "\<forall>k. k < base + i \<or> base + high \<le> k \<longrightarrow> xs ! k = arr s ! k"
        using u jh "1.prems" by (auto simp: arr2 ys_def nth_list_update)
      have ati: "xs ! (base + i) = arr s ! (base + j)"
        using u inb "1.prems" by (auto simp: arr2 ys_def nth_list_update)
      have lt': "\<forall>k. i \<le> k \<and> k < i' \<longrightarrow> compar (xs ! (base + k)) pivot < 0"
      proof (intro allI impI)
        fix k assume k: "i \<le> k \<and> k < i'"
        show "compar (xs ! (base + k)) pivot < 0"
        proof (cases "k = i")
          case True then show ?thesis using ati \<open>compar (arr s ! (base + j)) pivot < 0\<close> by simp
        next
          case False then show ?thesis using lt k by simp
        qed
      qed
      show ?thesis
        using eq b l m u' lt' ge len2 mset2 by (intro exI[of _ xs] exI[of _ i']) (simp add: arr2)
    next
      case False
      have inv1: "\<forall>k. i \<le> k \<and> k < j + 1 \<longrightarrow> \<not> compar (arr s1 ! (base + k)) pivot < 0"
        using "1.prems" False by (auto simp: s1_def less_Suc_eq)
      have pre: "i \<le> j + 1" "j + 1 \<le> high" "base + high < length (arr s1)"
        using "1.prems" jh by (simp_all add: s1_def)
      from "1.IH"(2)[OF jh inb(1) refl s1_def False pre inv1]
      obtain xs i' where
        r: "partition_loop compar base high pivot i (j + 1) s1 =
              Return (s1\<lparr>arr := xs, compar_calls := compar_calls s1 + (high - (j + 1))\<rparr>, i')"
        and b: "i \<le> i'" "i' \<le> high"
        and l: "length xs = length (arr s1)" and m: "mset xs = mset (arr s1)"
        and u: "\<forall>k. k < base + i \<or> base + high \<le> k \<longrightarrow> xs ! k = arr s1 ! k"
        and lt: "\<forall>k. i \<le> k \<and> k < i' \<longrightarrow> compar (xs ! (base + k)) pivot < 0"
        and ge: "\<forall>k. i' \<le> k \<and> k < high \<longrightarrow> \<not> compar (xs ! (base + k)) pivot < 0"
        by blast
      have st: "s1\<lparr>arr := xs, compar_calls := compar_calls s1 + (high - (j + 1))\<rparr>
                = s\<lparr>arr := xs, compar_calls := compar_calls s + (high - j)\<rparr>"
        using cnt by (simp add: s1_def)
      have eq: "partition_loop compar base high pivot i j s =
                  Return (s\<lparr>arr := xs, compar_calls := compar_calls s + (high - j)\<rparr>, i')"
        using jh inb False r unfolding st
        by (simp add: partition_loop.simps[of _ _ high _ i j] Let_def s1_def)
      show ?thesis
        using eq b l m u lt ge by (intro exI[of _ xs] exI[of _ i']) (simp add: s1_def)
    qed
  qed
qed

lemma partition_spec:
  assumes "low \<le> high" "base + high < length (arr s)"
  shows "\<exists>xs pi. partition_c base low high compar s =
             Return (s\<lparr>arr := xs, compar_calls := compar_calls s + (high - low)\<rparr>, pi)
           \<and> low \<le> pi \<and> pi \<le> high
           \<and> length xs = length (arr s) \<and> mset xs = mset (arr s)
           \<and> (\<forall>k. k < base + low \<or> base + high < k \<longrightarrow> xs ! k = arr s ! k)
           \<and> xs ! (base + pi) = arr s ! (base + high)
           \<and> (\<forall>k. low \<le> k \<and> k < pi \<longrightarrow> compar (xs ! (base + k)) (arr s ! (base + high)) < 0)
           \<and> (\<forall>k. pi < k \<and> k \<le> high \<longrightarrow> \<not> compar (xs ! (base + k)) (arr s ! (base + high)) < 0)"
proof -
  define pivot where "pivot = arr s ! (base + high)"
  have "\<forall>k. low \<le> k \<and> k < low \<longrightarrow> \<not> compar (arr s ! (base + k)) pivot < 0" by simp
  from partition_loop_spec[of low low high base s compar pivot, OF le_refl assms(1) assms(2) this]
  obtain ys i where
    r: "partition_loop compar base high pivot low low s =
          Return (s\<lparr>arr := ys, compar_calls := compar_calls s + (high - low)\<rparr>, i)"
    and b: "low \<le> i" "i \<le> high"
    and l: "length ys = length (arr s)" and m: "mset ys = mset (arr s)"
    and u: "\<forall>k. k < base + low \<or> base + high \<le> k \<longrightarrow> ys ! k = arr s ! k"
    and lt: "\<forall>k. low \<le> k \<and> k < i \<longrightarrow> compar (ys ! (base + k)) pivot < 0"
    and ge: "\<forall>k. i \<le> k \<and> k < high \<longrightarrow> \<not> compar (ys ! (base + k)) pivot < 0"
    by blast
  define s1 where "s1 = s\<lparr>arr := ys, compar_calls := compar_calls s + (high - low)\<rparr>"
  define xs where "xs = ys[base + i := ys ! (base + high), base + high := ys ! (base + i)]"
  have inb: "base + i < length ys" "base + high < length ys"
    using assms b l by simp_all
  have sw: "swap (base + i) (base + high) s1 =
              Return (s\<lparr>arr := xs, compar_calls := compar_calls s + (high - low)\<rparr>)"
    using inb by (simp add: swap_Return s1_def xs_def)
  have eq: "partition_c base low high compar s =
              Return (s\<lparr>arr := xs, compar_calls := compar_calls s + (high - low)\<rparr>, i)"
    using assms r sw by (simp add: partition_c_def Let_def pivot_def s1_def)
  have ph: "ys ! (base + high) = pivot" using u by (simp add: pivot_def)
  have l2: "length xs = length (arr s)" using l by (simp add: xs_def)
  have m2: "mset xs = mset (arr s)"
    unfolding xs_def using mset_swap[of "base + high" ys "base + i"] inb m by simp
  have u2: "\<forall>k. k < base + low \<or> base + high < k \<longrightarrow> xs ! k = arr s ! k"
    using u b by (auto simp: xs_def nth_list_update)
  have at: "xs ! (base + i) = pivot"
    using inb ph by (auto simp: xs_def nth_list_update)
  have lt2: "\<forall>k. low \<le> k \<and> k < i \<longrightarrow> compar (xs ! (base + k)) pivot < 0"
    using lt b by (auto simp: xs_def nth_list_update)
  have ge2: "\<forall>k. i < k \<and> k \<le> high \<longrightarrow> \<not> compar (xs ! (base + k)) pivot < 0"
  proof (intro allI impI)
    fix k assume k: "i < k \<and> k \<le> high"
    show "\<not> compar (xs ! (base + k)) pivot < 0"
    proof (cases "k = high")
      case True
      then have "xs ! (base + k) = ys ! (base + i)" using inb by (simp add: xs_def)
      then show ?thesis using ge k True by simp
    next
      case False
      then have "xs ! (base + k) = ys ! (base + k)" using k by (simp add: xs_def)
      then show ?thesis using ge k False by simp
    qed
  qed
  show ?thesis
    using eq b l2 m2 u2 at lt2 ge2 unfolding pivot_def
    by (intro exI[of _ xs] exI[of _ i]) simp
qed

lemma partition_frame:
  assumes "low \<le> high" "arr s = P @ X @ S" "length P = base + low" "length X = high + 1 - low"
  shows "\<exists>L R pi. partition_c base low high compar s =
             Return (s\<lparr>arr := P @ L @ [last X] @ R @ S,
                       compar_calls := compar_calls s + (high - low)\<rparr>, pi)
           \<and> low \<le> pi \<and> pi \<le> high \<and> length L = pi - low \<and> length R = high - pi
           \<and> mset (L @ [last X] @ R) = mset X
           \<and> (\<forall>x\<in>set L. compar x (last X) < 0)
           \<and> (\<forall>x\<in>set R. \<not> compar x (last X) < 0)"
proof -
  have inb: "base + high < length (arr s)" using assms by simp
  have Xne: "X \<noteq> []" using assms by auto
  have piv: "arr s ! (base + high) = last X"
  proof -
    have "arr s ! (base + high) = (P @ X @ S) ! (length P + (high - low))"
      using assms by simp
    also have "\<dots> = X ! (high - low)" using assms by (intro frame_nth) simp
    also have "\<dots> = last X" using Xne assms by (simp add: last_conv_nth)
    finally show ?thesis .
  qed
  from partition_spec[OF assms(1) inb, of compar] obtain ys pi where
    eq: "partition_c base low high compar s =
           Return (s\<lparr>arr := ys, compar_calls := compar_calls s + (high - low)\<rparr>, pi)"
    and b: "low \<le> pi" "pi \<le> high"
    and l: "length ys = length (arr s)" and m: "mset ys = mset (arr s)"
    and u: "\<forall>k. k < base + low \<or> base + high < k \<longrightarrow> ys ! k = arr s ! k"
    and at: "ys ! (base + pi) = arr s ! (base + high)"
    and lt: "\<forall>k. low \<le> k \<and> k < pi \<longrightarrow> compar (ys ! (base + k)) (arr s ! (base + high)) < 0"
    and ge: "\<forall>k. pi < k \<and> k \<le> high \<longrightarrow> \<not> compar (ys ! (base + k)) (arr s ! (base + high)) < 0"
    by blast
  define X' where "X' = take (length X) (drop (length P) ys)"
  have len: "length ys = length P + length X + length S" using l assms(2) by simp
  have out: "\<forall>k. k < length P \<or> length P + length X \<le> k \<longrightarrow> ys ! k = (P @ X @ S) ! k"
    using u assms(1,3,4) unfolding assms(2)[symmetric] by auto
  have fr: "ys = P @ X' @ S" unfolding X'_def by (rule frame_outside[OF len out])
  have lX': "length X' = high + 1 - low" using len assms(4) by (simp add: X'_def)
  have msX: "mset X' = mset X" using fr m assms(2) by simp
  have nthX': "ys ! (base + low + k) = X' ! k" if "k < high + 1 - low" for k
  proof -
    have "ys ! (base + low + k) = (P @ X' @ S) ! (length P + k)" using fr assms(3) by simp
    also have "\<dots> = X' ! k" using that lX' by (intro frame_nth) simp
    finally show ?thesis .
  qed
  define L where "L = take (pi - low) X'"
  define R where "R = drop (pi - low + 1) X'"
  have q: "pi - low < length X'" using b lX' by simp
  have "X' ! (pi - low) = ys ! (base + low + (pi - low))" using nthX'[of "pi - low"] b by simp
  also have "\<dots> = last X" using at piv b by simp
  finally have atX: "X' ! (pi - low) = last X" .
  have dec: "X' = L @ [last X] @ R"
    using id_take_nth_drop[OF q] atX by (simp add: L_def R_def)
  have lL: "length L = pi - low" using q by (simp add: L_def)
  have lR: "length R = high - pi" using lX' b by (simp add: R_def)
  have ltL: "\<forall>x\<in>set L. compar x (last X) < 0"
  proof
    fix x assume "x \<in> set L"
    then obtain k where k: "k < length L" "x = L ! k" by (auto simp: in_set_conv_nth)
    then have "x = X' ! k" by (simp add: L_def)
    also have "\<dots> = ys ! (base + (low + k))" using nthX'[of k] k lL b by (simp add: add.assoc)
    finally show "compar x (last X) < 0" using lt k lL piv by simp
  qed
  have geR: "\<forall>x\<in>set R. \<not> compar x (last X) < 0"
  proof
    fix x assume "x \<in> set R"
    then obtain k where k: "k < length R" "x = R ! k" by (auto simp: in_set_conv_nth)
    then have "x = X' ! (pi - low + 1 + k)" using lR lX' b by (simp add: R_def)
    also have "\<dots> = ys ! (base + (pi + 1 + k))"
      using nthX'[of "pi - low + 1 + k"] k lR b by (simp add: add.assoc)
    finally have "x = ys ! (base + (pi + 1 + k))" .
    moreover have "\<not> compar (ys ! (base + (pi + 1 + k))) (arr s ! (base + high)) < 0"
      using ge[rule_format, of "pi + 1 + k"] k lR by simp
    ultimately show "\<not> compar x (last X) < 0" using piv by simp
  qed
  show ?thesis
    using eq b lL lR msX ltL geR fr dec
    by (intro exI[of _ L] exI[of _ R] exI[of _ pi]) simp
qed

section \<open>The quick sort driver\<close>

lemma quick_sort_rec_frame:
  assumes "\<forall>k. 0 \<le> rnd k" "high + 1 < 2 ^ 32"
    and "arr s = P @ X @ S" "length P = base + low" "length X = high + 1 - low"
  shows "\<exists>s' X'. quick_sort_rec rnd base low high compar s = Return s'
           \<and> arr s' = P @ X' @ S \<and> mset X' = mset X
           \<and> (valid_comparator compar \<longrightarrow> sorted_wrt (le compar) X')
           \<and> malloc_next s' = malloc_next s \<and> stderr s' = stderr s
           \<and> (\<exists>t. rec_calls s' = rec_calls s @ (low, high) # t)"
  using assms
proof (induction "high + 1 - low" arbitrary: low high s P X S rule: less_induct)
  case less
  define s0 where "s0 = s\<lparr>rec_calls := rec_calls s @ [(low, high)]\<rparr>"
  show ?case
  proof (cases "low < high")
    case False
    then have "length X \<le> 1" using less.prems by simp
    then have "sorted_wrt (le compar) X" by (cases X) auto
    then show ?thesis using False less.prems
      by (intro exI[of _ s0] exI[of _ X])
         (simp add: quick_sort_rec.simps[of rnd base low high] s0_def)
  next
    case True
    then have lh: "low \<le> high" by simp
    have a0: "arr s0 = P @ X @ S" using less.prems by (simp add: s0_def)
    have r0: "0 \<le> rnd (rand_next s0)" using less.prems by simp
    from choose_random_pivot_frame[where rnd=rnd and s=s0, OF lh less.prems(2) r0 a0 less.prems(4,5)]
    obtain X1 where
      e1: "choose_random_pivot rnd base low high s0 =
             Return (s0\<lparr>arr := P @ X1 @ S, rand_next := rand_next s0 + 1\<rparr>)"
      and l1: "length X1 = length X" and m1: "mset X1 = mset X" by blast
    define s1 where "s1 = s0\<lparr>arr := P @ X1 @ S, rand_next := rand_next s0 + 1\<rparr>"
    have a1: "arr s1 = P @ X1 @ S" by (simp add: s1_def)
    have lx1: "length X1 = high + 1 - low" using l1 less.prems by simp
    define p where "p = last X1"
    from partition_frame[where compar=compar, OF lh a1 less.prems(4) lx1]
    obtain L R pi where
      e2: "partition_c base low high compar s1 =
             Return (s1\<lparr>arr := P @ L @ [p] @ R @ S,
                        compar_calls := compar_calls s1 + (high - low)\<rparr>, pi)"
      and b: "low \<le> pi" "pi \<le> high"
      and lL: "length L = pi - low" and lR: "length R = high - pi"
      and m2: "mset (L @ [p] @ R) = mset X1"
      and ltL: "\<forall>x\<in>set L. compar x p < 0"
      and geR: "\<forall>x\<in>set R. \<not> compar x p < 0"
      unfolding p_def by blast
    define s2 where "s2 = s1\<lparr>arr := P @ L @ [p] @ R @ S,
                               compar_calls := compar_calls s1 + (high - low)\<rparr>"
    have f2: "malloc_next s2 = malloc_next s" "stderr s2 = stderr s"
      "rec_calls s2 = rec_calls s @ [(low, high)]"
      by (simp_all add: s2_def s1_def s0_def)
    \<comment> \<open>the left sub-range\<close>
    have "\<exists>s3 L'. (if pi > 0 then quick_sort_rec rnd base low (pi - 1) compar s2 else Return s2)
                     = Return s3
             \<and> arr s3 = P @ L' @ ([p] @ R @ S) \<and> mset L' = mset L
             \<and> (valid_comparator compar \<longrightarrow> sorted_wrt (le compar) L')
             \<and> malloc_next s3 = malloc_next s2 \<and> stderr s3 = stderr s2
             \<and> (\<exists>t. rec_calls s3 = rec_calls s2 @ t)"
    proof (cases "pi > 0")
      case True
      have "pi - 1 + 1 - low < high + 1 - low" using True b lh by simp
      moreover have "pi - 1 + 1 < 2 ^ 32" using True b less.prems(2) by simp
      moreover have "arr s2 = P @ L @ ([p] @ R @ S)" by (simp add: s2_def)
      moreover have "length L = pi - 1 + 1 - low" using True lL by simp
      ultimately obtain s3 L' t where
        "quick_sort_rec rnd base low (pi - 1) compar s2 = Return s3"
        "arr s3 = P @ L' @ ([p] @ R @ S)" "mset L' = mset L"
        "valid_comparator compar \<longrightarrow> sorted_wrt (le compar) L'"
        "malloc_next s3 = malloc_next s2" "stderr s3 = stderr s2"
        "rec_calls s3 = rec_calls s2 @ (low, pi - 1) # t"
        using less.hyps[of "pi - 1" low s2 P L "[p] @ R @ S"] less.prems(1,4)
        by blast
      then show ?thesis using True by auto
    next
      case False
      then have "L = []" using lL by simp
      then show ?thesis using False
        by (intro exI[of _ s2] exI[of _ "[]"]) (simp add: s2_def)
    qed
    then obtain s3 L' t3 where
      e3: "(if pi > 0 then quick_sort_rec rnd base low (pi - 1) compar s2 else Return s2) = Return s3"
      and a3: "arr s3 = P @ L' @ ([p] @ R @ S)" and m3: "mset L' = mset L"
      and so3: "valid_comparator compar \<longrightarrow> sorted_wrt (le compar) L'"
      and f3: "malloc_next s3 = malloc_next s2" "stderr s3 = stderr s2"
      and t3: "rec_calls s3 = rec_calls s2 @ t3"
      by blast
    \<comment> \<open>the right sub-range\<close>
    have lL': "length L' = pi - low" using m3 lL by (metis size_mset)
    have "high + 1 - (pi + 1) < high + 1 - low" using b True by simp
    moreover have "arr s3 = (P @ L' @ [p]) @ R @ S" using a3 by simp
    moreover have "length (P @ L' @ [p]) = base + (pi + 1)"
      using lL' less.prems(4) b by simp
    moreover have "length R = high + 1 - (pi + 1)" using lR by simp
    ultimately obtain s4 R' t4 where
      e4: "quick_sort_rec rnd base (pi + 1) high compar s3 = Return s4"
      and a4: "arr s4 = (P @ L' @ [p]) @ R' @ S" and m4: "mset R' = mset R"
      and so4: "valid_comparator compar \<longrightarrow> sorted_wrt (le compar) R'"
      and f4: "malloc_next s4 = malloc_next s3" "stderr s4 = stderr s3"
      and t4: "rec_calls s4 = rec_calls s3 @ (pi + 1, high) # t4"
      using less.hyps[of high "pi + 1" s3 "P @ L' @ [p]" R S] less.prems(1,2)
      by blast
    have e1': "choose_random_pivot rnd base low high s0 = Return s1"
      using e1 by (simp only: s1_def)
    have e2': "partition_c base low high compar s1 = Return (s2, pi)"
      using e2 by (simp only: s2_def)
    have eq: "quick_sort_rec rnd base low high compar s = Return s4"
      by (subst quick_sort_rec.simps)
         (simp only: Let_def s0_def[symmetric] True if_True e1' and_then.simps e2' prod.case e3 e4)
    have ms: "mset (L' @ [p] @ R') = mset X" using m1 m2 m3 m4 by simp
    have so: "sorted_wrt (le compar) (L' @ [p] @ R')" if v: "valid_comparator compar"
    proof -
      have sL: "set L' = set L" using m3 by (rule mset_eq_setD)
      have sR: "set R' = set R" using m4 by (rule mset_eq_setD)
      have 1: "\<forall>x\<in>set L'. le compar x p" using ltL sL by (auto simp: le_def)
      have 2: "\<forall>y\<in>set R'. le compar p y"
        using geR sR valid_comparator_flip[OF v] by (auto simp: le_def)
      have 3: "\<forall>x\<in>set L'. \<forall>y\<in>set R'. le compar x y"
        using 1 2 valid_comparator_trans[OF v] by (auto simp: le_def)
      show ?thesis using so3 so4 v 1 2 3 by (auto simp: sorted_wrt_append)
    qed
    have tr: "\<exists>t. rec_calls s4 = rec_calls s @ (low, high) # t"
      using f2(3) t3 t4 by simp
    show ?thesis
      using eq a4 ms so f2 f3 f4 tr by (intro exI[of _ s4] exI[of _ "L' @ [p] @ R'"]) simp
  qed
qed

lemma quick_sort_rec_zero_length:
  assumes "high - low + 1 = 2 ^ 32"
  shows "quick_sort_rec rnd base low high compar s = Undefined"
proof -
  have lt: "low < high" using assms by (cases "low < high") auto
  show ?thesis
    by (subst quick_sort_rec.simps)
       (simp only: lt if_True Let_def choose_random_pivot_def
          pivot_index_of_zero_length[OF assms] option.simps and_then.simps)
qed

lemma quick_sort_frame:
  assumes "\<forall>k. 0 \<le> rnd k" "nitems < 2 ^ 32"
    and "arr s = P @ X @ S" "length P = base" "length X = nitems"
  shows "\<exists>s' X'. quick_sort rnd (Some base) nitems (Some compar) s = Return s'
           \<and> arr s' = P @ X' @ S \<and> mset X' = mset X
           \<and> (valid_comparator compar \<longrightarrow> sorted_wrt (le compar) X')
           \<and> malloc_next s' = malloc_next s \<and> stderr s' = stderr s"
proof (cases "nitems > 0")
  case False
  then have "quick_sort rnd (Some base) nitems (Some compar) s = Return s" "X = []"
    using assms by (simp_all add: quick_sort_def)
  then show ?thesis using assms(3) by (intro exI[of _ s] exI[of _ "[]"]) simp
next
  case True
  define s0 where "s0 = s\<lparr>rand_next := 0\<rparr>"
  have e: "quick_sort rnd (Some base) nitems (Some compar) s =
             quick_sort_rec rnd base 0 (nitems - 1) compar s0"
    using True by (simp add: quick_sort_def s0_def)
  have "nitems - 1 + 1 < 2 ^ 32" "arr s0 = P @ X @ S" "length P = base + 0"
    "length X = nitems - 1 + 1 - 0"
    using True assms by (simp_all add: s0_def)
  from quick_sort_rec_frame[where compar=compar, OF assms(1) this]
  obtain s' X' where "quick_sort_rec rnd base 0 (nitems - 1) compar s0 = Return s'"
    "arr s' = P @ X' @ S" "mset X' = mset X"
    "valid_comparator compar \<longrightarrow> sorted_wrt (le compar) X'"
    "malloc_next s' = malloc_next s0" "stderr s' = stderr s0"
    by blast
  then show ?thesis unfolding e by (intro exI[of _ s'] exI[of _ X']) (simp add: s0_def)
qed

text \<open>
  The driver on a range of any length: either a pivot computation is undefined, on a range
  of at least \<open>2^32\<close> elements, or the call returns with the range sorted.
\<close>

lemma quick_sort_rec_cases:
  assumes "\<forall>k. 0 \<le> rnd k" "high + 1 < 2 ^ 64"
    and "arr s = P @ X @ S" "length P = base + low" "length X = high + 1 - low"
  shows "(quick_sort_rec rnd base low high compar s = Undefined \<and> 2 ^ 32 \<le> high + 1 - low)
         \<or> (\<exists>s' X'. quick_sort_rec rnd base low high compar s = Return s'
               \<and> arr s' = P @ X' @ S \<and> mset X' = mset X
               \<and> (valid_comparator compar \<longrightarrow> sorted_wrt (le compar) X'))"
  using assms
proof (induction "high + 1 - low" arbitrary: low high s P X S rule: less_induct)
  case less
  define s0 where "s0 = s\<lparr>rec_calls := rec_calls s @ [(low, high)]\<rparr>"
  show ?case
  proof (cases "low < high")
    case False
    then have "length X \<le> 1" using less.prems by simp
    then have "sorted_wrt (le compar) X" by (cases X) auto
    then have "\<exists>s' X'. quick_sort_rec rnd base low high compar s = Return s'
               \<and> arr s' = P @ X' @ S \<and> mset X' = mset X
               \<and> (valid_comparator compar \<longrightarrow> sorted_wrt (le compar) X')"
      using False less.prems
      by (intro exI[of _ s0] exI[of _ X])
         (simp add: quick_sort_rec.simps[of rnd base low high] s0_def)
    then show ?thesis by (rule disjI2)
  next
    case True
    then have lh: "low \<le> high" by simp
    have a0: "arr s0 = P @ X @ S" using less.prems by (simp add: s0_def)
    have r0: "0 \<le> rnd (rand_next s0)" using less.prems by simp
    from choose_random_pivot_cases[where rnd=rnd and s=s0, OF lh less.prems(2) r0 a0 less.prems(4,5)]
    show ?thesis
    proof
      assume u: "choose_random_pivot rnd base low high s0 = Undefined \<and> 2 ^ 32 \<le> high + 1 - low"
      then have u1: "choose_random_pivot rnd base low high s0 = Undefined" by simp
      have "quick_sort_rec rnd base low high compar s = Undefined"
        by (subst quick_sort_rec.simps)
           (simp only: Let_def s0_def[symmetric] True if_True u1 and_then.simps)
      then show ?thesis using u by simp
    next
      assume "\<exists>X'. choose_random_pivot rnd base low high s0 =
               Return (s0\<lparr>arr := P @ X' @ S, rand_next := rand_next s0 + 1\<rparr>)
             \<and> length X' = length X \<and> mset X' = mset X"
      then obtain X1 where
        e1: "choose_random_pivot rnd base low high s0 =
               Return (s0\<lparr>arr := P @ X1 @ S, rand_next := rand_next s0 + 1\<rparr>)"
        and l1: "length X1 = length X" and m1: "mset X1 = mset X" by blast
      define s1 where "s1 = s0\<lparr>arr := P @ X1 @ S, rand_next := rand_next s0 + 1\<rparr>"
      have a1: "arr s1 = P @ X1 @ S" by (simp add: s1_def)
      have lx1: "length X1 = high + 1 - low" using l1 less.prems by simp
      define p where "p = last X1"
      from partition_frame[where compar=compar, OF lh a1 less.prems(4) lx1]
      obtain L R pi where
        e2: "partition_c base low high compar s1 =
               Return (s1\<lparr>arr := P @ L @ [p] @ R @ S,
                          compar_calls := compar_calls s1 + (high - low)\<rparr>, pi)"
        and b: "low \<le> pi" "pi \<le> high"
        and lL: "length L = pi - low" and lR: "length R = high - pi"
        and m2: "mset (L @ [p] @ R) = mset X1"
        and ltL: "\<forall>x\<in>set L. compar x p < 0"
        and geR: "\<forall>x\<in>set R. \<not> compar x p < 0"
        unfolding p_def by blast
      define s2 where "s2 = s1\<lparr>arr := P @ L @ [p] @ R @ S,
                                 compar_calls := compar_calls s1 + (high - low)\<rparr>"
      have e1': "choose_random_pivot rnd base low high s0 = Return s1"
        using e1 by (simp only: s1_def)
      have e2': "partition_c base low high compar s1 = Return (s2, pi)"
        using e2 by (simp only: s2_def)
      \<comment> \<open>the left sub-range\<close>
      have left: "((if pi > 0 then quick_sort_rec rnd base low (pi - 1) compar s2 else Return s2)
                      = Undefined \<and> 2 ^ 32 \<le> high + 1 - low)
           \<or> (\<exists>s3 L'. (if pi > 0 then quick_sort_rec rnd base low (pi - 1) compar s2 else Return s2)
                       = Return s3
               \<and> arr s3 = P @ L' @ ([p] @ R @ S) \<and> mset L' = mset L
               \<and> (valid_comparator compar \<longrightarrow> sorted_wrt (le compar) L'))"
      proof (cases "pi > 0")
        case pos: True
        have d: "pi - 1 + 1 - low < high + 1 - low" using pos b lh True by linarith
        have h64: "pi - 1 + 1 < 2 ^ 64" using pos b less.prems(2) by linarith
        have a2: "arr s2 = P @ L @ ([p] @ R @ S)" by (simp add: s2_def)
        have l2: "length L = pi - 1 + 1 - low" using pos lL by simp
        from less.hyps[of "pi - 1" low s2 P L "[p] @ R @ S", OF d less.prems(1) h64 a2 less.prems(4) l2]
        show ?thesis
        proof
          assume "quick_sort_rec rnd base low (pi - 1) compar s2 = Undefined
                  \<and> 2 ^ 32 \<le> pi - 1 + 1 - low"
          then have "quick_sort_rec rnd base low (pi - 1) compar s2 = Undefined"
            and "2 ^ 32 \<le> high + 1 - low" using d by simp_all
          then show ?thesis using pos by simp
        next
          assume "\<exists>s' X'. quick_sort_rec rnd base low (pi - 1) compar s2 = Return s'
               \<and> arr s' = P @ X' @ [p] @ R @ S \<and> mset X' = mset L
               \<and> (valid_comparator compar \<longrightarrow> sorted_wrt (le compar) X')"
          then show ?thesis using pos by simp
        qed
      next
        case False
        then have "L = []" using lL by simp
        then have "\<exists>s3 L'. (if pi > 0 then quick_sort_rec rnd base low (pi - 1) compar s2 else Return s2)
                       = Return s3
               \<and> arr s3 = P @ L' @ ([p] @ R @ S) \<and> mset L' = mset L
               \<and> (valid_comparator compar \<longrightarrow> sorted_wrt (le compar) L')"
          using False by (intro exI[of _ s2] exI[of _ "[]"]) (simp add: s2_def)
        then show ?thesis by (rule disjI2)
      qed
      from left show ?thesis
      proof
        assume u: "(if pi > 0 then quick_sort_rec rnd base low (pi - 1) compar s2 else Return s2)
                      = Undefined \<and> 2 ^ 32 \<le> high + 1 - low"
        then have u3: "(if pi > 0 then quick_sort_rec rnd base low (pi - 1) compar s2 else Return s2)
                      = Undefined" by simp
        have "quick_sort_rec rnd base low high compar s = Undefined"
          by (subst quick_sort_rec.simps)
             (simp only: Let_def s0_def[symmetric] True if_True e1' and_then.simps e2' prod.case u3)
        then show ?thesis using u by simp
      next
        assume "\<exists>s3 L'. (if pi > 0 then quick_sort_rec rnd base low (pi - 1) compar s2 else Return s2)
                       = Return s3
               \<and> arr s3 = P @ L' @ ([p] @ R @ S) \<and> mset L' = mset L
               \<and> (valid_comparator compar \<longrightarrow> sorted_wrt (le compar) L')"
        then obtain s3 L' where
          e3: "(if pi > 0 then quick_sort_rec rnd base low (pi - 1) compar s2 else Return s2) = Return s3"
          and a3: "arr s3 = P @ L' @ ([p] @ R @ S)" and m3: "mset L' = mset L"
          and so3: "valid_comparator compar \<longrightarrow> sorted_wrt (le compar) L'"
          by blast
        \<comment> \<open>the right sub-range\<close>
        have lL': "length L' = pi - low" using m3 lL by (metis size_mset)
        have d4: "high + 1 - (pi + 1) < high + 1 - low" using b True by linarith
        have a3': "arr s3 = (P @ L' @ [p]) @ R @ S" using a3 by simp
        have lP4: "length (P @ L' @ [p]) = base + (pi + 1)"
          using lL' less.prems(4) b by simp
        have lR4: "length R = high + 1 - (pi + 1)" using lR by simp
        from less.hyps[of high "pi + 1" s3 "P @ L' @ [p]" R S, OF d4 less.prems(1,2) a3' lP4 lR4]
        show ?thesis
        proof
          assume u: "quick_sort_rec rnd base (pi + 1) high compar s3 = Undefined
                     \<and> 2 ^ 32 \<le> high + 1 - (pi + 1)"
          then have u4: "quick_sort_rec rnd base (pi + 1) high compar s3 = Undefined"
            and big: "2 ^ 32 \<le> high + 1 - low" using d4 by simp_all
          have "quick_sort_rec rnd base low high compar s = Undefined"
            by (subst quick_sort_rec.simps)
               (simp only: Let_def s0_def[symmetric] True if_True e1' and_then.simps e2' prod.case e3 u4)
          then show ?thesis using big by simp
        next
          assume "\<exists>s' X'. quick_sort_rec rnd base (pi + 1) high compar s3 = Return s'
               \<and> arr s' = (P @ L' @ [p]) @ X' @ S \<and> mset X' = mset R
               \<and> (valid_comparator compar \<longrightarrow> sorted_wrt (le compar) X')"
          then obtain s4 R' where
            e4: "quick_sort_rec rnd base (pi + 1) high compar s3 = Return s4"
            and a4: "arr s4 = (P @ L' @ [p]) @ R' @ S" and m4: "mset R' = mset R"
            and so4: "valid_comparator compar \<longrightarrow> sorted_wrt (le compar) R'"
            by blast
          have eq: "quick_sort_rec rnd base low high compar s = Return s4"
            by (subst quick_sort_rec.simps)
               (simp only: Let_def s0_def[symmetric] True if_True e1' and_then.simps e2' prod.case e3 e4)
          have ms: "mset (L' @ [p] @ R') = mset X" using m1 m2 m3 m4 by simp
          have so: "sorted_wrt (le compar) (L' @ [p] @ R')" if v: "valid_comparator compar"
          proof -
            have sL: "set L' = set L" using m3 by (rule mset_eq_setD)
            have sR: "set R' = set R" using m4 by (rule mset_eq_setD)
            have 1: "\<forall>x\<in>set L'. le compar x p" using ltL sL by (auto simp: le_def)
            have 2: "\<forall>y\<in>set R'. le compar p y"
              using geR sR valid_comparator_flip[OF v] by (auto simp: le_def)
            have 3: "\<forall>x\<in>set L'. \<forall>y\<in>set R'. le compar x y"
              using 1 2 valid_comparator_trans[OF v] by (auto simp: le_def)
            show ?thesis using so3 so4 v 1 2 3 by (auto simp: sorted_wrt_append)
          qed
          have "\<exists>s' X'. quick_sort_rec rnd base low high compar s = Return s'
               \<and> arr s' = P @ X' @ S \<and> mset X' = mset X
               \<and> (valid_comparator compar \<longrightarrow> sorted_wrt (le compar) X')"
            using eq a4 ms so by (intro exI[of _ s4] exI[of _ "L' @ [p] @ R'"]) simp
          then show ?thesis by (rule disjI2)
        qed
      qed
    qed
  qed
qed

lemma quick_sort_cases:
  assumes "\<forall>k. 0 \<le> rnd k" "nitems < 2 ^ 64"
    and "arr s = P @ X @ S" "length P = base" "length X = nitems"
  shows "(quick_sort rnd (Some base) nitems (Some compar) s = Undefined \<and> 2 ^ 32 \<le> nitems)
         \<or> (\<exists>s' X'. quick_sort rnd (Some base) nitems (Some compar) s = Return s'
               \<and> arr s' = P @ X' @ S \<and> mset X' = mset X
               \<and> (valid_comparator compar \<longrightarrow> sorted_wrt (le compar) X'))"
proof (cases "nitems > 0")
  case False
  then have "quick_sort rnd (Some base) nitems (Some compar) s = Return s" "X = []"
    using assms by (simp_all add: quick_sort_def)
  then have "\<exists>s' X'. quick_sort rnd (Some base) nitems (Some compar) s = Return s'
               \<and> arr s' = P @ X' @ S \<and> mset X' = mset X
               \<and> (valid_comparator compar \<longrightarrow> sorted_wrt (le compar) X')"
    using assms(3) by (intro exI[of _ s] exI[of _ "[]"]) simp
  then show ?thesis by (rule disjI2)
next
  case True
  define s0 where "s0 = s\<lparr>rand_next := 0\<rparr>"
  have e: "quick_sort rnd (Some base) nitems (Some compar) s =
             quick_sort_rec rnd base 0 (nitems - 1) compar s0"
    using True by (simp add: quick_sort_def s0_def)
  have "nitems - 1 + 1 < 2 ^ 64" "arr s0 = P @ X @ S" "length P = base + 0"
    "length X = nitems - 1 + 1 - 0"
    using True assms by (simp_all add: s0_def)
  from quick_sort_rec_cases[where compar=compar, OF assms(1) this]
  show ?thesis unfolding e using True by simp
qed

section \<open>Merging on lists\<close>

lemma lmerge_Nil2 [simp]: "lmerge c ls [] = ls"
  by (cases ls) auto

lemma mset_lmerge: "mset (lmerge c ls rs) = mset ls + mset rs"
  by (induction c ls rs rule: lmerge.induct) auto

lemma set_lmerge: "set (lmerge c ls rs) = set ls \<union> set rs"
  using mset_lmerge[of c ls rs] by (metis set_mset_mset set_mset_union)

lemma length_lmerge: "length (lmerge c ls rs) = length ls + length rs"
  using mset_lmerge[of c ls rs] by (metis size_mset size_union)

lemma mset_msort: "mset (msort c xs) = mset xs"
proof (induction c xs rule: msort.induct)
  case (1 c xs)
  show ?case
  proof (cases "length xs > 1")
    case True
    have "mset (msort c xs) =
            mset (take (length xs div 2) xs) + mset (drop (length xs div 2) xs)"
      using True 1 by (simp add: msort.simps[of c xs] mset_lmerge)
    also have "\<dots> = mset (take (length xs div 2) xs @ drop (length xs div 2) xs)"
      by (simp only: mset_append)
    finally show ?thesis by simp
  next
    case False
    then show ?thesis by (simp add: msort.simps[of c xs])
  qed
qed

lemma length_msort: "length (msort c xs) = length xs"
  using mset_msort[of c xs] by (metis size_mset)

lemma sorted_lmerge:
  "valid_comparator c \<Longrightarrow> sorted_wrt (le c) ls \<Longrightarrow> sorted_wrt (le c) rs
   \<Longrightarrow> sorted_wrt (le c) (lmerge c ls rs)"
proof (induction c ls rs rule: lmerge.induct)
  case (3 c l ls r rs)
  note v = "3.prems"(1)
  show ?case
  proof (cases "c l r \<le> 0")
    case True
    have "\<forall>y\<in>set rs. le c l y"
      using True "3.prems" valid_comparator_trans[OF v, of l r] by (auto simp: le_def)
    then show ?thesis using True 3 by (auto simp: set_lmerge le_def)
  next
    case False
    then have rl: "c r l \<le> 0" using valid_comparator_gt[OF v, of l r] by simp
    have "\<forall>y\<in>set ls. le c r y"
      using rl "3.prems" valid_comparator_trans[OF v, of r l] by (auto simp: le_def)
    then show ?thesis using False rl 3 by (auto simp: set_lmerge le_def)
  qed
qed simp_all

lemma sorted_msort:
  "valid_comparator c \<Longrightarrow> sorted_wrt (le c) (msort c xs)"
proof (induction c xs rule: msort.induct)
  case (1 c xs)
  show ?case
  proof (cases "length xs > 1")
    case True
    then show ?thesis using 1 by (simp add: msort.simps[of c xs] sorted_lmerge)
  next
    case False
    then have "length xs \<le> 1" by simp
    then have "sorted_wrt (le c) xs" by (cases xs) auto
    then show ?thesis using False by (simp add: msort.simps[of c xs])
  qed
qed

text \<open>
  Stability: for every reference \<open>x\<close>, the references that compare equal to \<open>x\<close> come
  out of the merge with those of the left list first, each group in its own order.
\<close>

lemma filter_lmerge:
  "valid_comparator c \<Longrightarrow> sorted_wrt (le c) ls
   \<Longrightarrow> filter (\<lambda>y. c x y = 0) (lmerge c ls rs) =
       filter (\<lambda>y. c x y = 0) ls @ filter (\<lambda>y. c x y = 0) rs"
proof (induction c ls rs rule: lmerge.induct)
  case (3 c l ls r rs)
  note v = "3.prems"(1)
  show ?case
  proof (cases "c l r \<le> 0")
    case True
    then show ?thesis using 3 by simp
  next
    case False
    have none: "filter (\<lambda>y. c x y = 0) (l # ls) = []" if xr: "c x r = 0"
    proof -
      have "c x z \<noteq> 0" if z: "z \<in> set (l # ls)" for z
      proof
        assume xz: "c x z = 0"
        have "c z x = 0" using valid_comparator_sym0[OF v xz] .
        then have zr: "c z r = 0" using valid_comparator_eq_trans[OF v _ xr] by simp
        have lz: "c l z \<le> 0"
        proof (cases "z = l")
          case True
          then show ?thesis using valid_comparator_refl[OF v, of l] by simp
        next
          case False
          then show ?thesis using z "3.prems"(2) by (auto simp: le_def)
        qed
        have "c l r \<le> 0" using valid_comparator_trans[OF v lz] zr by simp
        then show False using \<open>\<not> c l r \<le> 0\<close> by simp
      qed
      then show ?thesis by (simp only: filter_empty_conv) blast
    qed
    have ih: "filter (\<lambda>y. c x y = 0) (lmerge c (l # ls) rs) =
              filter (\<lambda>y. c x y = 0) (l # ls) @ filter (\<lambda>y. c x y = 0) rs"
      using "3.IH"(2)[OF False v "3.prems"(2)] .
    show ?thesis
    proof (cases "c x r = 0")
      case True
      have "filter (\<lambda>y. c x y = 0) (lmerge c (l # ls) (r # rs)) =
              r # filter (\<lambda>y. c x y = 0) (lmerge c (l # ls) rs)"
        using False True by simp
      also have "\<dots> = r # filter (\<lambda>y. c x y = 0) rs"
        unfolding ih none[OF True] by simp
      also have "\<dots> = filter (\<lambda>y. c x y = 0) (l # ls) @ filter (\<lambda>y. c x y = 0) (r # rs)"
        unfolding none[OF True] using True by simp
      finally show ?thesis .
    next
      case xr: False
      have "filter (\<lambda>y. c x y = 0) (lmerge c (l # ls) (r # rs)) =
              filter (\<lambda>y. c x y = 0) (lmerge c (l # ls) rs)"
        using False xr by simp
      then show ?thesis unfolding ih using xr by simp
    qed
  qed
qed simp_all

lemma filter_msort:
  "valid_comparator c \<Longrightarrow> filter (\<lambda>y. c x y = 0) (msort c xs) = filter (\<lambda>y. c x y = 0) xs"
proof (induction c xs rule: msort.induct)
  case (1 c xs)
  show ?case
  proof (cases "length xs > 1")
    case True
    have "filter (\<lambda>y. c x y = 0) (msort c xs) =
            filter (\<lambda>y. c x y = 0) (msort c (take (length xs div 2) xs)) @
            filter (\<lambda>y. c x y = 0) (msort c (drop (length xs div 2) xs))"
      using True "1.prems" by (simp add: msort.simps[of c xs] filter_lmerge sorted_msort)
    also have "\<dots> = filter (\<lambda>y. c x y = 0) (take (length xs div 2) xs) @
                     filter (\<lambda>y. c x y = 0) (drop (length xs div 2) xs)"
      using 1 True by simp
    also have "\<dots> = filter (\<lambda>y. c x y = 0) (take (length xs div 2) xs @ drop (length xs div 2) xs)"
      by (simp only: filter_append)
    finally show ?thesis by simp
  next
    case False
    then show ?thesis by (simp add: msort.simps[of c xs])
  qed
qed

section \<open>Two sorted arrangements of the same references\<close>

lemma sorted_arrangements_agree_gen:
  assumes v: "valid_comparator c" and f: "\<And>x y. (f x = f y) = (c x y = 0)"
  shows "sorted_wrt (le c) xs \<Longrightarrow> sorted_wrt (le c) ys
   \<Longrightarrow> image_mset f (mset xs) = image_mset f (mset ys)
   \<Longrightarrow> list_all2 (\<lambda>x y. c x y = 0) xs ys"
proof (induction xs arbitrary: ys)
  case Nil
  then show ?case by simp
next
  case (Cons x xs)
  from Cons.prems(3) have "ys \<noteq> []" by auto
  then obtain y ys' where ys: "ys = y # ys'" by (cases ys) auto
  have eq: "image_mset f (mset (x # xs)) = image_mset f (mset (y # ys'))"
    using Cons.prems(3) ys by simp
  have low: "c a b \<le> 0" if "f b \<in># image_mset f (mset (a # as))"
    "sorted_wrt (le c) (a # as)" for a b as
  proof -
    from that(1) have "f b \<in> f ` set (a # as)"
      by (simp only: in_image_mset set_mset_mset)
    then obtain z where z: "f b = f z" "z \<in> set (a # as)" by (rule imageE)
    then have zb: "c z b = 0" using f[of z b] by simp
    have "c a z \<le> 0"
    proof (cases "z = a")
      case True then show ?thesis using valid_comparator_refl[OF v, of a] by simp
    next
      case False then show ?thesis using z(2) that(2) by (auto simp: le_def)
    qed
    then show ?thesis using valid_comparator_trans[OF v, of a z b] zb by simp
  qed
  have "f y \<in># image_mset f (mset (y # ys'))" by simp
  then have "f y \<in># image_mset f (mset (x # xs))" by (simp only: eq)
  then have xy: "c x y \<le> 0" using low Cons.prems(1) by blast
  have "f x \<in># image_mset f (mset (x # xs))" by simp
  then have "f x \<in># image_mset f (mset (y # ys'))" by (simp only: eq)
  then have yx: "c y x \<le> 0" using low Cons.prems(2) ys by blast
  have e: "c x y = 0" using valid_comparator_both[OF v xy yx] .
  then have "f x = f y" using f by simp
  then have "image_mset f (mset xs) = image_mset f (mset ys')"
    using eq by simp
  then have "list_all2 (\<lambda>x y. c x y = 0) xs ys'"
    using Cons.IH[of ys'] Cons.prems(1,2) ys by simp
  then show ?case using e ys by simp
qed

lemma sorted_arrangements_agree:
  assumes "valid_comparator c" "sorted_wrt (le c) xs" "sorted_wrt (le c) ys" "mset xs = mset ys"
  shows "list_all2 (\<lambda>x y. c x y = 0) xs ys"
proof -
  define f where "f = (\<lambda>x. {z. c x z = 0})"
  have f: "(f x = f y) = (c x y = 0)" for x y
  proof
    assume "f x = f y"
    moreover have "y \<in> f y" using valid_comparator_refl[OF assms(1)] by (simp add: f_def)
    ultimately have "y \<in> f x" by simp
    then show "c x y = 0" by (simp add: f_def)
  next
    assume e: "c x y = 0"
    show "f x = f y" unfolding f_def
    proof (intro set_eqI iffI)
      fix z assume "z \<in> {z. c x z = 0}"
      then have "c x z = 0" by simp
      moreover have "c y x = 0" using valid_comparator_sym0[OF assms(1) e] .
      ultimately show "z \<in> {z. c y z = 0}"
        using valid_comparator_eq_trans[OF assms(1), of y x z] by simp
    next
      fix z assume "z \<in> {z. c y z = 0}"
      then have "c y z = 0" by simp
      then show "z \<in> {z. c x z = 0}"
        using valid_comparator_eq_trans[OF assms(1) e, of z] by simp
    qed
  qed
  have "image_mset f (mset xs) = image_mset f (mset ys)" using assms(4) by simp
  from sorted_arrangements_agree_gen[of c f, OF assms(1) f assms(2,3) this]
  show ?thesis .
qed

lemma sorted_arrangements_equal:
  assumes "list_all2 (\<lambda>x y. c x y = 0) xs ys" "set xs = A" "set ys = A"
    and "\<forall>x\<in>A. \<forall>y\<in>A. c x y = 0 \<longrightarrow> x = y"
  shows "xs = ys"
proof -
  have "list_all2 (=) xs ys"
    using assms(1)
  proof (rule list.rel_mono_strong)
    fix x y assume "x \<in> set xs" "y \<in> set ys" "c x y = 0"
    then show "x = y" using assms(2,3,4) by blast
  qed
  then show ?thesis by (simp add: list.rel_eq)
qed

section \<open>The merge primitive\<close>

lemma take_drop_step:
  "a < b \<Longrightarrow> b \<le> length xs \<Longrightarrow>
   take (b - a) (drop a xs) = xs ! a # take (b - (a + 1)) (drop (a + 1) xs)"
proof -
  assume a: "a < b" "b \<le> length xs"
  then have "drop a xs = xs ! a # drop (Suc a) xs" by (simp add: Cons_nth_drop_Suc)
  moreover have "b - a = Suc (b - (a + 1))" using a by simp
  ultimately show ?thesis by simp
qed

lemma merge_loop2_spec:
  "i \<le> middle_i \<Longrightarrow> base + middle_i \<le> length (arr s)
   \<Longrightarrow> length temp + (middle_i - i) \<le> nitems
   \<Longrightarrow> merge_loop2 base nitems middle_i i temp s =
       Return (middle_i, temp @ take (middle_i - i) (drop (base + i) (arr s)))"
proof (induction base nitems middle_i i temp s rule: merge_loop2.induct)
  case (1 base nitems middle_i i temp s)
  show ?case
  proof (cases "i < middle_i")
    case False
    then have "merge_loop2 base nitems middle_i i temp s = Return (i, temp)"
      by (subst merge_loop2.simps) simp
    then show ?thesis using False "1.prems" by simp
  next
    case True
    have inb: "base + i < length (arr s)" using True "1.prems" by simp
    have st: "store_temp nitems temp (arr s ! (base + i)) = Some (temp @ [arr s ! (base + i)])"
      using True "1.prems" by (simp add: store_temp_def)
    have "merge_loop2 base nitems middle_i (i + 1) (temp @ [arr s ! (base + i)]) s =
            Return (middle_i, (temp @ [arr s ! (base + i)]) @
                      take (middle_i - (i + 1)) (drop (base + (i + 1)) (arr s)))"
      using "1.IH"[OF True inb st] True "1.prems" by simp
    moreover have "take (base + middle_i - (base + i)) (drop (base + i) (arr s)) =
        arr s ! (base + i) # take (base + middle_i - (base + i + 1)) (drop (base + i + 1) (arr s))"
      using True "1.prems" by (intro take_drop_step) simp_all
    ultimately show ?thesis
      using True inb st by (simp add: merge_loop2.simps[of _ _ middle_i i] add.assoc)
  qed
qed

lemma merge_loop3_spec:
  "j \<le> nitems \<Longrightarrow> base + nitems \<le> length (arr s)
   \<Longrightarrow> length temp + (nitems - j) \<le> nitems
   \<Longrightarrow> merge_loop3 base nitems j temp s =
       Return (nitems, temp @ take (nitems - j) (drop (base + j) (arr s)))"
proof (induction base nitems j temp s rule: merge_loop3.induct)
  case (1 base nitems j temp s)
  show ?case
  proof (cases "j < nitems")
    case False
    then have "merge_loop3 base nitems j temp s = Return (j, temp)"
      by (subst merge_loop3.simps) simp
    then show ?thesis using False "1.prems" by simp
  next
    case True
    have inb: "base + j < length (arr s)" using True "1.prems" by simp
    have st: "store_temp nitems temp (arr s ! (base + j)) = Some (temp @ [arr s ! (base + j)])"
      using True "1.prems" by (simp add: store_temp_def)
    have "merge_loop3 base nitems (j + 1) (temp @ [arr s ! (base + j)]) s =
            Return (nitems, (temp @ [arr s ! (base + j)]) @
                      take (nitems - (j + 1)) (drop (base + (j + 1)) (arr s)))"
      using "1.IH"[OF True inb st] True "1.prems" by simp
    moreover have "take (base + nitems - (base + j)) (drop (base + j) (arr s)) =
        arr s ! (base + j) # take (base + nitems - (base + j + 1)) (drop (base + j + 1) (arr s))"
      using True "1.prems" by (intro take_drop_step) simp_all
    ultimately show ?thesis
      using True inb st by (simp add: merge_loop3.simps[of _ nitems j] add.assoc)
  qed
qed

lemma merge_loop1_spec:
  "i \<le> middle_i \<Longrightarrow> middle_i \<le> j \<Longrightarrow> j \<le> nitems \<Longrightarrow> base + nitems \<le> length (arr s)
   \<Longrightarrow> length temp = i + (j - middle_i)
   \<Longrightarrow> \<exists>i' j' temp' n.
         merge_loop1 compar base nitems middle_i i j temp s =
           Return (i', j', temp', s\<lparr>compar_calls := compar_calls s + n\<rparr>)
         \<and> i \<le> i' \<and> i' \<le> middle_i \<and> j \<le> j' \<and> j' \<le> nitems
         \<and> (i' = middle_i \<or> j' = nitems)
         \<and> length temp' = i' + (j' - middle_i)
         \<and> temp' @ lmerge compar (take (middle_i - i') (drop (base + i') (arr s)))
                                  (take (nitems - j') (drop (base + j') (arr s)))
           = temp @ lmerge compar (take (middle_i - i) (drop (base + i) (arr s)))
                                  (take (nitems - j) (drop (base + j) (arr s)))"
proof (induction compar base nitems middle_i i j temp s rule: merge_loop1.induct)
  case (1 compar base nitems middle_i i j temp s)
  show ?case
  proof (cases "i < middle_i \<and> j < nitems")
    case False
    then have "i = middle_i \<or> j = nitems" using "1.prems" by auto
    moreover have "merge_loop1 compar base nitems middle_i i j temp s =
        Return (i, j, temp, s\<lparr>compar_calls := compar_calls s + 0\<rparr>)"
      by (subst merge_loop1.simps) (simp only: False if_False, simp)
    ultimately show ?thesis using "1.prems"
      by - (rule exI[of _ i], rule exI[of _ j], rule exI[of _ temp], rule exI[of _ 0], simp)
  next
    case True
    have inb: "base + i < length (arr s) \<and> base + j < length (arr s)"
      using True "1.prems" by simp
    define s1 where "s1 = s\<lparr>compar_calls := compar_calls s + 1\<rparr>"
    have a1: "arr s1 = arr s" by (simp add: s1_def)
    have li: "take (middle_i - i) (drop (base + i) (arr s)) =
        arr s ! (base + i) # take (middle_i - (i + 1)) (drop (base + (i + 1)) (arr s))"
      using take_drop_step[of "base + i" "base + middle_i" "arr s"] True "1.prems"
      by (simp add: add.assoc)
    have lj: "take (nitems - j) (drop (base + j) (arr s)) =
        arr s ! (base + j) # take (nitems - (j + 1)) (drop (base + (j + 1)) (arr s))"
      using take_drop_step[of "base + j" "base + nitems" "arr s"] True "1.prems"
      by (simp add: add.assoc)
    have room: "length temp < nitems" using True "1.prems" by linarith
    show ?thesis
    proof (cases "compar (arr s ! (base + i)) (arr s ! (base + j)) \<le> 0")
      case c: True
      define temp1 where "temp1 = temp @ [arr s ! (base + i)]"
      have st: "store_temp nitems temp (arr s1 ! (base + i)) = Some temp1"
        using room by (simp add: store_temp_def temp1_def a1)
      have pre: "i + 1 \<le> middle_i" "base + nitems \<le> length (arr s1)"
        "length temp1 = i + 1 + (j - middle_i)"
        using True "1.prems" by (simp_all add: a1 temp1_def)
      from "1.IH"(1)[OF True inb refl s1_def c st pre(1) "1.prems"(2,3) pre(2,3)]
      obtain i' j' temp' n where
        r: "merge_loop1 compar base nitems middle_i (i + 1) j temp1 s1 =
              Return (i', j', temp', s1\<lparr>compar_calls := compar_calls s1 + n\<rparr>)"
        and b: "i + 1 \<le> i'" "i' \<le> middle_i" "j \<le> j'" "j' \<le> nitems"
          "i' = middle_i \<or> j' = nitems" "length temp' = i' + (j' - middle_i)"
        and e: "temp' @ lmerge compar (take (middle_i - i') (drop (base + i') (arr s1)))
                                  (take (nitems - j') (drop (base + j') (arr s1)))
           = temp1 @ lmerge compar (take (middle_i - (i + 1)) (drop (base + (i + 1)) (arr s1)))
                                  (take (nitems - j) (drop (base + j) (arr s1)))"
        by blast
      have stt: "s1\<lparr>compar_calls := compar_calls s1 + n\<rparr> = s\<lparr>compar_calls := compar_calls s + (n + 1)\<rparr>"
        by (simp add: s1_def)
      have eq: "merge_loop1 compar base nitems middle_i i j temp s =
                  Return (i', j', temp', s\<lparr>compar_calls := compar_calls s + (n + 1)\<rparr>)"
        by (subst merge_loop1.simps)
           (simp only: True inb if_True if_False Let_def s1_def[symmetric] c st option.simps r stt
              simp_thms)
      have e': "temp' @ lmerge compar (take (middle_i - i') (drop (base + i') (arr s)))
                                  (take (nitems - j') (drop (base + j') (arr s)))
           = temp @ lmerge compar (take (middle_i - i) (drop (base + i) (arr s)))
                                  (take (nitems - j) (drop (base + j) (arr s)))"
        using e c unfolding a1 li temp1_def by (simp add: lj)
      show ?thesis using eq b e'
        by - (rule exI[of _ i'], rule exI[of _ j'], rule exI[of _ temp'], rule exI[of _ "n + 1"],
              simp)
    next
      case c: False
      define temp1 where "temp1 = temp @ [arr s ! (base + j)]"
      have st: "store_temp nitems temp (arr s1 ! (base + j)) = Some temp1"
        using room by (simp add: store_temp_def temp1_def a1)
      have pre: "middle_i \<le> j + 1" "j + 1 \<le> nitems" "base + nitems \<le> length (arr s1)"
        "length temp1 = i + (j + 1 - middle_i)"
        using True "1.prems" by (simp_all add: a1 temp1_def)
      from "1.IH"(2)[OF True inb refl s1_def c st "1.prems"(1) pre]
      obtain i' j' temp' n where
        r: "merge_loop1 compar base nitems middle_i i (j + 1) temp1 s1 =
              Return (i', j', temp', s1\<lparr>compar_calls := compar_calls s1 + n\<rparr>)"
        and b: "i \<le> i'" "i' \<le> middle_i" "j + 1 \<le> j'" "j' \<le> nitems"
          "i' = middle_i \<or> j' = nitems" "length temp' = i' + (j' - middle_i)"
        and e: "temp' @ lmerge compar (take (middle_i - i') (drop (base + i') (arr s1)))
                                  (take (nitems - j') (drop (base + j') (arr s1)))
           = temp1 @ lmerge compar (take (middle_i - i) (drop (base + i) (arr s1)))
                                  (take (nitems - (j + 1)) (drop (base + (j + 1)) (arr s1)))"
        by blast
      have stt: "s1\<lparr>compar_calls := compar_calls s1 + n\<rparr> = s\<lparr>compar_calls := compar_calls s + (n + 1)\<rparr>"
        by (simp add: s1_def)
      have eq: "merge_loop1 compar base nitems middle_i i j temp s =
                  Return (i', j', temp', s\<lparr>compar_calls := compar_calls s + (n + 1)\<rparr>)"
        by (subst merge_loop1.simps)
           (simp only: True inb if_True if_False Let_def s1_def[symmetric] c st option.simps r stt
              simp_thms)
      have e': "temp' @ lmerge compar (take (middle_i - i') (drop (base + i') (arr s)))
                                  (take (nitems - j') (drop (base + j') (arr s)))
           = temp @ lmerge compar (take (middle_i - i) (drop (base + i) (arr s)))
                                  (take (nitems - j) (drop (base + j) (arr s)))"
        using e c unfolding a1 lj temp1_def by (simp add: li)
      show ?thesis using eq b e'
        by - (rule exI[of _ i'], rule exI[of _ j'], rule exI[of _ temp'], rule exI[of _ "n + 1"],
              simp)
    qed
  qed
qed

lemma lmerge_one_empty:
  "ls = [] \<or> rs = [] \<Longrightarrow> lmerge c ls rs = ls @ rs"
  by (cases ls) auto

lemma merge_frame:
  assumes "alloc (malloc_next s)" "arr s = P @ L @ R @ S"
    and "length P = base" "length L = middle_i" "length L + length R = nitems"
  shows "\<exists>n. merge alloc base nitems middle_i compar s =
           Return (s\<lparr>arr := P @ lmerge compar L R @ S,
                     malloc_next := malloc_next s + 1,
                     compar_calls := compar_calls s + n\<rparr>)"
proof -
  define s0 where "s0 = s\<lparr>malloc_next := malloc_next s + 1\<rparr>"
  have a0: "arr s0 = P @ L @ R @ S" using assms by (simp add: s0_def)
  have len: "base + nitems \<le> length (arr s0)" "middle_i \<le> nitems"
    using assms a0 by simp_all
  have segL: "take (middle_i - 0) (drop (base + 0) (arr s0)) = L"
    using assms a0 by simp
  have segR: "take (nitems - middle_i) (drop (base + middle_i) (arr s0)) = R"
    using assms a0 by simp
  have "length ([]::'a list) = 0 + (middle_i - middle_i)" by simp
  from merge_loop1_spec[where compar=compar, OF le0 le_refl len(2) len(1) this]
  obtain i' j' temp' n where
    e1: "merge_loop1 compar base nitems middle_i 0 middle_i [] s0 =
           Return (i', j', temp', s0\<lparr>compar_calls := compar_calls s0 + n\<rparr>)"
    and b: "i' \<le> middle_i" "middle_i \<le> j'" "j' \<le> nitems" "i' = middle_i \<or> j' = nitems"
      "length temp' = i' + (j' - middle_i)"
    and e: "temp' @ lmerge compar (take (middle_i - i') (drop (base + i') (arr s0)))
                                  (take (nitems - j') (drop (base + j') (arr s0)))
           = [] @ lmerge compar L R"
    unfolding segL segR by blast
  define s1 where "s1 = s0\<lparr>compar_calls := compar_calls s0 + n\<rparr>"
  define A where "A = take (middle_i - i') (drop (base + i') (arr s0))"
  define B where "B = take (nitems - j') (drop (base + j') (arr s0))"
  have a1: "arr s1 = arr s0" by (simp add: s1_def)
  have lA: "length A = middle_i - i'" using len b by (simp add: A_def)
  have lB: "length B = nitems - j'" using len b by (simp add: B_def)
  have "A = [] \<or> B = []" using b(4) lA lB by auto
  then have tot: "temp' @ A @ B = lmerge compar L R"
    using e lmerge_one_empty[of A B compar] unfolding A_def[symmetric] B_def[symmetric] by simp
  have e2: "merge_loop2 base nitems middle_i i' temp' s1 = Return (middle_i, temp' @ A)"
    unfolding A_def a1[symmetric]
    using b len by (intro merge_loop2_spec) (simp_all add: a1)
  have e3: "merge_loop3 base nitems j' (temp' @ A) s1 = Return (nitems, (temp' @ A) @ B)"
    unfolding B_def a1[symmetric]
    using b len lA by (intro merge_loop3_spec) (simp_all add: a1)
  have l3: "length ((temp' @ A) @ B) = nitems"
    using tot assms(5) length_lmerge[of compar L R] by (metis append.assoc)
  have tk: "take base (arr s1) = P" and dr: "drop (base + nitems) (arr s1) = S"
    using a0 a1 assms by simp_all
  have e4: "memcpy base ((temp' @ A) @ B) nitems s1 =
              Return (s1\<lparr>arr := P @ lmerge compar L R @ S\<rparr>)"
    using l3 len tk dr tot by (simp add: memcpy_def a1)
  have st: "s1\<lparr>arr := P @ lmerge compar L R @ S\<rparr> =
            s\<lparr>arr := P @ lmerge compar L R @ S, malloc_next := malloc_next s + 1,
               compar_calls := compar_calls s + n\<rparr>"
    by (simp add: s1_def s0_def)
  have "merge alloc base nitems middle_i compar s =
          Return (s\<lparr>arr := P @ lmerge compar L R @ S, malloc_next := malloc_next s + 1,
                    compar_calls := compar_calls s + n\<rparr>)"
    unfolding merge_def
    by (simp only: Let_def assms(1) not_True_eq_False if_False s0_def[symmetric] e1
          and_then.simps prod.case s1_def[symmetric] e2 e3 e4 st)
  then show ?thesis by blast
qed

lemma merge_exit:
  "\<not> alloc (malloc_next s) \<Longrightarrow>
   merge alloc base nitems middle_i compar s =
     Exit (s\<lparr>malloc_next := malloc_next s + 1,
             stderr := stderr s @ [''merge: memory allocation failed'' @ [CHR 0x0A]]\<rparr>)"
  by (simp add: merge_def Let_def)

lemma merge_permutes:
  assumes "middle_i \<le> nitems" "base + nitems \<le> length (arr s)" "alloc (malloc_next s)"
  shows "\<exists>s'. merge alloc base nitems middle_i compar s = Return s'
          \<and> mset (arr s') = mset (arr s)
          \<and> mset (take nitems (drop base (arr s'))) = mset (take nitems (drop base (arr s)))"
proof -
  define P where "P = take base (arr s)"
  define X where "X = take nitems (drop base (arr s))"
  define S where "S = drop nitems (drop base (arr s))"
  define L where "L = take middle_i X"
  define R where "R = drop middle_i X"
  have "nitems \<le> length (arr s) - base" using assms by linarith
  then have lP: "length P = base" and lX: "length X = nitems"
    using assms by (simp_all add: P_def X_def)
  have lL: "length L = middle_i" and lLR: "length L + length R = nitems"
    using assms lX by (simp_all add: L_def R_def)
  have "arr s = P @ X @ S" unfolding P_def X_def S_def by (rule frame_split)
  moreover have XLR: "X = L @ R" by (simp add: L_def R_def)
  ultimately have dec: "arr s = P @ L @ R @ S" by simp
  from merge_frame[where alloc=alloc and s=s and compar=compar, OF assms(3) dec lP lL lLR]
  obtain n where e: "merge alloc base nitems middle_i compar s =
           Return (s\<lparr>arr := P @ lmerge compar L R @ S,
                     malloc_next := malloc_next s + 1,
                     compar_calls := compar_calls s + n\<rparr>)" by blast
  have "length (lmerge compar L R) = nitems" using lLR by (simp add: length_lmerge)
  then have "take nitems (drop base (P @ lmerge compar L R @ S)) = lmerge compar L R"
    using frame_range[of "P @ lmerge compar L R @ S" P "lmerge compar L R" S] lP by simp
  moreover have "mset (lmerge compar L R) = mset X"
    using XLR by (simp add: mset_lmerge)
  moreover have "mset (P @ lmerge compar L R @ S) = mset (arr s)"
    using dec by (simp add: mset_lmerge)
  ultimately show ?thesis using e unfolding X_def by simp
qed

section \<open>The merge sort driver\<close>

lemma merge_sort_rec_frame:
  assumes "arr s = P @ X @ S" "length P = base" "length X = nitems"
  shows "((\<forall>k<nitems - 1. alloc (malloc_next s + k)) \<longrightarrow>
            (\<exists>s'. merge_sort_rec alloc base nitems compar s = Return s'
                \<and> arr s' = P @ msort compar X @ S
                \<and> malloc_next s' = malloc_next s + (nitems - 1)
                \<and> stderr s' = stderr s))
       \<and> (\<not> (\<forall>k<nitems - 1. alloc (malloc_next s + k)) \<longrightarrow>
            (\<exists>s' X'. merge_sort_rec alloc base nitems compar s = Exit s'
                \<and> arr s' = P @ X' @ S \<and> mset X' = mset X
                \<and> stderr s' = stderr s @ [''merge: memory allocation failed'' @ [CHR 0x0A]]
                \<and> (valid_comparator compar \<longrightarrow>
                      (\<forall>x. filter (\<lambda>y. compar x y = 0) X' = filter (\<lambda>y. compar x y = 0) X))))"
  using assms
proof (induction nitems arbitrary: base s P X S rule: less_induct)
  case (less nitems)
  let ?msg = "''merge: memory allocation failed'' @ [CHR 0x0A]"
  show ?case
  proof (cases "nitems > 1")
    case False
    have r: "merge_sort_rec alloc base nitems compar s = Return s"
      by (subst merge_sort_rec.simps) (simp only: False if_False)
    have "msort compar X = X" using False less.prems by (simp add: msort.simps[of compar X])
    moreover have "\<forall>k<nitems - 1. alloc (malloc_next s + k)" using False by simp
    ultimately show ?thesis using r less.prems False by simp
  next
    case True
    define mid where "mid = nitems div 2"
    define X1 where "X1 = take mid X"
    define X2 where "X2 = drop mid X"
    have mid: "1 \<le> mid" "mid < nitems" using True by (simp_all add: mid_def)
    have X: "X = X1 @ X2" by (simp add: X1_def X2_def)
    have lX1: "length X1 = mid" and lX2: "length X2 = nitems - mid"
      using mid less.prems by (simp_all add: X1_def X2_def)
    have ms: "msort compar X = lmerge compar (msort compar X1) (msort compar X2)"
      using True less.prems
      by (subst msort.simps) (simp add: X1_def X2_def mid_def)
    have unf: "merge_sort_rec alloc base nitems compar s =
        and_then (merge_sort_rec alloc base mid compar s) (\<lambda>s1.
        and_then (merge_sort_rec alloc (base + mid) (nitems - mid) compar s1) (\<lambda>s2.
        merge alloc base nitems mid compar s2))"
      by (subst merge_sort_rec.simps) (simp only: True if_True Let_def mid_def)
    have a: "arr s = P @ X1 @ (X2 @ S)" using less.prems X by simp
    note ih1 = less.IH[OF mid(2) a less.prems(2) lX1]
    show ?thesis
    proof (cases "\<forall>k<mid - 1. alloc (malloc_next s + k)")
      case c1: False
      then obtain s' X1' where
        e: "merge_sort_rec alloc base mid compar s = Exit s'"
        and a': "arr s' = P @ X1' @ (X2 @ S)" and m': "mset X1' = mset X1"
        and st: "stderr s' = stderr s @ [?msg]"
        and fl: "valid_comparator compar \<longrightarrow>
                   (\<forall>x. filter (\<lambda>y. compar x y = 0) X1' = filter (\<lambda>y. compar x y = 0) X1)"
        using ih1 by blast
      from c1 obtain k where "k < mid - 1" "\<not> alloc (malloc_next s + k)" by blast
      then have no: "\<not> (\<forall>k<nitems - 1. alloc (malloc_next s + k))"
        using mid by (intro notI) (metis less_trans diff_less_mono le_less)
      have "merge_sort_rec alloc base nitems compar s = Exit s'"
        unfolding unf e by simp
      moreover have "arr s' = P @ (X1' @ X2) @ S" using a' by simp
      moreover have "mset (X1' @ X2) = mset X" using m' X by simp
      moreover have "valid_comparator compar \<longrightarrow>
          (\<forall>x. filter (\<lambda>y. compar x y = 0) (X1' @ X2) = filter (\<lambda>y. compar x y = 0) X)"
        using fl X by simp
      ultimately show ?thesis using no st by blast
    next
      case c1: True
      then obtain s1 where
        e1: "merge_sort_rec alloc base mid compar s = Return s1"
        and a1: "arr s1 = P @ msort compar X1 @ (X2 @ S)"
        and n1: "malloc_next s1 = malloc_next s + (mid - 1)"
        and st1: "stderr s1 = stderr s"
        using ih1 by blast
      have a1': "arr s1 = (P @ msort compar X1) @ X2 @ S" using a1 by simp
      have lp: "length (P @ msort compar X1) = base + mid"
        using less.prems(2) lX1 by (simp add: length_msort)
      have lt2: "nitems - mid < nitems" using mid by simp
      note ih2 = less.IH[OF lt2 a1' lp lX2]
      show ?thesis
      proof (cases "\<forall>k<nitems - mid - 1. alloc (malloc_next s1 + k)")
        case c2: False
        then obtain s' X2' where
          e: "merge_sort_rec alloc (base + mid) (nitems - mid) compar s1 = Exit s'"
          and a': "arr s' = (P @ msort compar X1) @ X2' @ S" and m': "mset X2' = mset X2"
          and st: "stderr s' = stderr s1 @ [?msg]"
          and fl: "valid_comparator compar \<longrightarrow>
                   (\<forall>x. filter (\<lambda>y. compar x y = 0) X2' = filter (\<lambda>y. compar x y = 0) X2)"
          using ih2 by blast
        from c2 obtain k where k: "k < nitems - mid - 1" "\<not> alloc (malloc_next s1 + k)" by blast
        have "mid - 1 + k < nitems - 1" using k mid by simp
        moreover have "\<not> alloc (malloc_next s + (mid - 1 + k))"
          using k n1 by (simp add: add.assoc)
        ultimately have no: "\<not> (\<forall>k<nitems - 1. alloc (malloc_next s + k))" by blast
        have "merge_sort_rec alloc base nitems compar s = Exit s'"
          unfolding unf e1 using e by simp
        moreover have "arr s' = P @ (msort compar X1 @ X2') @ S" using a' by simp
        moreover have "mset (msort compar X1 @ X2') = mset X"
          using m' X by (simp add: mset_msort)
        moreover have "valid_comparator compar \<longrightarrow>
            (\<forall>x. filter (\<lambda>y. compar x y = 0) (msort compar X1 @ X2') =
                 filter (\<lambda>y. compar x y = 0) X)"
          using fl X by (simp add: filter_msort)
        moreover have "stderr s' = stderr s @ [?msg]" using st st1 by simp
        ultimately show ?thesis using no by blast
      next
        case c2: True
        then obtain s2 where
          e2: "merge_sort_rec alloc (base + mid) (nitems - mid) compar s1 = Return s2"
          and a2: "arr s2 = (P @ msort compar X1) @ msort compar X2 @ S"
          and n2: "malloc_next s2 = malloc_next s1 + (nitems - mid - 1)"
          and st2: "stderr s2 = stderr s1"
          using ih2 by blast
        have n2': "malloc_next s2 = malloc_next s + (nitems - 2)"
          using n1 n2 mid by simp
        have a2': "arr s2 = P @ msort compar X1 @ msort compar X2 @ S" using a2 by simp
        have lm: "length (msort compar X1) = mid"
          "length (msort compar X1) + length (msort compar X2) = nitems"
          using lX1 lX2 mid by (simp_all add: length_msort)
        have unf2: "merge_sort_rec alloc base nitems compar s = merge alloc base nitems mid compar s2"
          unfolding unf e1 using e2 by simp
        show ?thesis
        proof (cases "alloc (malloc_next s2)")
          case c3: True
          from merge_frame[where compar=compar and alloc=alloc and s=s2, OF c3 a2' less.prems(2) lm]
          obtain n where e3: "merge alloc base nitems mid compar s2 =
             Return (s2\<lparr>arr := P @ lmerge compar (msort compar X1) (msort compar X2) @ S,
                        malloc_next := malloc_next s2 + 1,
                        compar_calls := compar_calls s2 + n\<rparr>)" by blast
          have all: "\<forall>k<nitems - 1. alloc (malloc_next s + k)"
          proof (intro allI impI)
            fix k assume k: "k < nitems - 1"
            consider "k < mid - 1" | "mid - 1 \<le> k" "k < nitems - 2" | "k = nitems - 2"
              using k by linarith
            then show "alloc (malloc_next s + k)"
            proof cases
              case 1
              then show ?thesis using c1 by simp
            next
              case 2
              then have "k - (mid - 1) < nitems - mid - 1" using mid by simp
              then have "alloc (malloc_next s1 + (k - (mid - 1)))" using c2 by simp
              then show ?thesis using n1 2 by simp
            next
              case 3
              then show ?thesis using c3 n2' by simp
            qed
          qed
          have "malloc_next s2 + 1 = malloc_next s + (nitems - 1)" using n2' True by simp
          then show ?thesis using all unf2 e3 ms st1 st2 by simp
        next
          case c3: False
          have no: "\<not> (\<forall>k<nitems - 1. alloc (malloc_next s + k))"
          proof
            assume "\<forall>k<nitems - 1. alloc (malloc_next s + k)"
            moreover have "nitems - 2 < nitems - 1" using True by simp
            ultimately have "alloc (malloc_next s + (nitems - 2))" by blast
            then show False using c3 n2' by simp
          qed
          have e3: "merge_sort_rec alloc base nitems compar s =
                Exit (s2\<lparr>malloc_next := malloc_next s2 + 1, stderr := stderr s2 @ [?msg]\<rparr>)"
            unfolding unf2 using merge_exit[where alloc=alloc and s=s2, OF c3] by simp
          have "valid_comparator compar \<longrightarrow>
            (\<forall>x. filter (\<lambda>y. compar x y = 0) (msort compar X1 @ msort compar X2) =
                 filter (\<lambda>y. compar x y = 0) X)"
            using X by (simp add: filter_msort)
          moreover have "mset (msort compar X1 @ msort compar X2) = mset X"
            using X by (simp add: mset_msort)
          ultimately show ?thesis using no e3 a2' st1 st2
            by (intro conjI impI)
               (simp, rule exI[of _ "s2\<lparr>malloc_next := malloc_next s2 + 1, stderr := stderr s2 @ [?msg]\<rparr>"],
                rule exI[of _ "msort compar X1 @ msort compar X2"], simp)
        qed
      qed
    qed
  qed
qed

lemma merge_sort_frame:
  assumes "arr s = P @ X @ S" "length P = base" "length X = nitems"
  shows "((\<forall>k<nitems - 1. alloc (malloc_next s + k)) \<longrightarrow>
            (\<exists>s'. merge_sort alloc (Some base) nitems (Some compar) s = Return s'
                \<and> arr s' = P @ msort compar X @ S
                \<and> malloc_next s' = malloc_next s + (nitems - 1)
                \<and> stderr s' = stderr s))
       \<and> (\<not> (\<forall>k<nitems - 1. alloc (malloc_next s + k)) \<longrightarrow>
            (\<exists>s' X'. merge_sort alloc (Some base) nitems (Some compar) s = Exit s'
                \<and> arr s' = P @ X' @ S \<and> mset X' = mset X
                \<and> stderr s' = stderr s @ [''merge: memory allocation failed'' @ [CHR 0x0A]]
                \<and> (valid_comparator compar \<longrightarrow>
                      (\<forall>x. filter (\<lambda>y. compar x y = 0) X' = filter (\<lambda>y. compar x y = 0) X))))"
proof (cases "nitems \<ge> 2")
  case True
  then have "merge_sort alloc (Some base) nitems (Some compar) s =
               merge_sort_rec alloc base nitems compar s"
    by (simp add: merge_sort_def)
  then show ?thesis using merge_sort_rec_frame[OF assms, of alloc compar] by simp
next
  case False
  then have "merge_sort alloc (Some base) nitems (Some compar) s = Return s"
    by (simp add: merge_sort_def)
  moreover have "msort compar X = X" using False assms by (simp add: msort.simps[of compar X])
  moreover have "\<forall>k<nitems - 1. alloc (malloc_next s + k)" using False by simp
  ultimately show ?thesis using assms False by simp
qed

section \<open>What a returning call has done to the array\<close>

lemma and_then_Exit:
  "and_then m f = Exit e \<longleftrightarrow> m = Exit e \<or> (\<exists>x. m = Return x \<and> f x = Exit e)"
  by (cases m) auto

lemma swap_mset:
  "swap a b s = Return s' \<Longrightarrow> mset (arr s') = mset (arr s)"
  using mset_swap[of b "arr s" a] by (auto simp: swap_Return)

lemma choose_random_pivot_mset:
  "choose_random_pivot rnd base low high s = Return s' \<Longrightarrow> mset (arr s') = mset (arr s)"
  unfolding choose_random_pivot_def Let_def
  by (cases "pivot_index_of (rnd (rand_next s)) low high") (auto dest: swap_mset)

lemma partition_loop_mset:
  "partition_loop compar base high pivot i j s = Return (s', i')
   \<Longrightarrow> mset (arr s') = mset (arr s)"
proof (induction compar base high pivot i j s rule: partition_loop.induct)
  case (1 compar base high pivot i j s)
  show ?case
  proof (cases "j < high")
    case False
    with "1.prems" show ?thesis by (simp add: partition_loop.simps[of _ _ high _ _ j])
  next
    case True
    note jh = True
    from "1.prems" jh have inb: "base + j < length (arr s)"
      by (simp add: partition_loop.simps[of _ _ high _ _ j] split: if_splits)
    define s1 where "s1 = s\<lparr>compar_calls := compar_calls s + 1\<rparr>"
    show ?thesis
    proof (cases "compar (arr s ! (base + j)) pivot < 0")
      case True
      with "1.prems" jh inb obtain s2 where
        sw: "swap (base + i) (base + j) s1 = Return s2" and
        rec: "partition_loop compar base high pivot (i + 1) (j + 1) s2 = Return (s', i')"
        by (cases "swap (base + i) (base + j) s1")
           (simp_all add: partition_loop.simps[of _ _ high _ i j] Let_def s1_def)
      from "1.IH"(1)[OF jh inb refl s1_def True sw rec] swap_mset[OF sw]
      show ?thesis by (simp add: s1_def)
    next
      case False
      with "1.prems" jh inb have
        rec: "partition_loop compar base high pivot i (j + 1) s1 = Return (s', i')"
        by (simp add: partition_loop.simps[of _ _ high _ i j] Let_def s1_def)
      from "1.IH"(2)[OF jh inb refl s1_def False rec]
      show ?thesis by (simp add: s1_def)
    qed
  qed
qed

lemma partition_mset:
  "partition_c base low high compar s = Return (s', pi) \<Longrightarrow> mset (arr s') = mset (arr s)"
  unfolding partition_c_def
  by (auto simp: Let_def and_then_Return split: if_splits dest!: partition_loop_mset swap_mset)

lemma quick_sort_rec_mset:
  "quick_sort_rec rnd base low high compar s = Return s' \<Longrightarrow> mset (arr s') = mset (arr s)"
proof (induction "high + 1 - low" arbitrary: low high s s' rule: less_induct)
  case less
  define s0 where "s0 = s\<lparr>rec_calls := rec_calls s @ [(low, high)]\<rparr>"
  show ?case
  proof (cases "low < high")
    case False
    then have "quick_sort_rec rnd base low high compar s = Return s0"
      by (subst quick_sort_rec.simps) (simp add: s0_def)
    then show ?thesis using less.prems by (simp add: s0_def)
  next
    case True
    have unf: "quick_sort_rec rnd base low high compar s =
        and_then (choose_random_pivot rnd base low high s0) (\<lambda>s1.
        and_then (partition_c base low high compar s1) (\<lambda>(s2, pi).
        and_then (if pi > 0 then quick_sort_rec rnd base low (pi - 1) compar s2
                  else Return s2) (\<lambda>s3.
        quick_sort_rec rnd base (pi + 1) high compar s3)))"
      by (subst quick_sort_rec.simps) (simp only: Let_def s0_def[symmetric] True if_True)
    from less.prems[unfolded unf] obtain s1 where
      e1: "choose_random_pivot rnd base low high s0 = Return s1"
      and r1: "and_then (partition_c base low high compar s1) (\<lambda>(s2, pi).
        and_then (if pi > 0 then quick_sort_rec rnd base low (pi - 1) compar s2
                  else Return s2) (\<lambda>s3.
        quick_sort_rec rnd base (pi + 1) high compar s3)) = Return s'"
      by (auto simp: and_then_Return)
    from r1 obtain s2 pi where
      e2: "partition_c base low high compar s1 = Return (s2, pi)"
      and r2: "and_then (if pi > 0 then quick_sort_rec rnd base low (pi - 1) compar s2
                  else Return s2) (\<lambda>s3.
        quick_sort_rec rnd base (pi + 1) high compar s3) = Return s'"
      by (auto simp: and_then_Return)
    from r2 obtain s3 where
      e3: "(if pi > 0 then quick_sort_rec rnd base low (pi - 1) compar s2 else Return s2) = Return s3"
      and e4: "quick_sort_rec rnd base (pi + 1) high compar s3 = Return s'"
      by (auto simp: and_then_Return)
    have b: "low \<le> pi \<and> pi \<le> high" using partition_bounds[OF e2] True by simp
    have m1: "mset (arr s1) = mset (arr s)"
      using choose_random_pivot_mset[OF e1] by (simp add: s0_def)
    have m2: "mset (arr s2) = mset (arr s1)" using partition_mset[OF e2] .
    have m3: "mset (arr s3) = mset (arr s2)"
    proof (cases "pi > 0")
      case pos: True
      then have "pi - 1 + 1 - low < high + 1 - low" using b True by linarith
      then show ?thesis using less.hyps[of "pi - 1" low s2 s3] e3 pos by simp
    next
      case False
      then show ?thesis using e3 by simp
    qed
    have "high + 1 - (pi + 1) < high + 1 - low" using b True by linarith
    then have m4: "mset (arr s') = mset (arr s3)" using less.hyps[of high "pi + 1" s3 s'] e4 by simp
    show ?thesis using m1 m2 m3 m4 by simp
  qed
qed

lemma quick_sort_mset:
  "quick_sort rnd base nitems compar s = Return s' \<Longrightarrow> mset (arr s') = mset (arr s)"
  unfolding quick_sort_def
  by (auto split: if_splits dest!: quick_sort_rec_mset)

lemma merge_loop1_arr:
  "merge_loop1 compar base nitems middle_i i j temp s = Return (i', j', temp', s')
   \<Longrightarrow> arr s' = arr s"
proof (induction compar base nitems middle_i i j temp s rule: merge_loop1.induct)
  case (1 compar base nitems middle_i i j temp s)
  show ?case
  proof (cases "i < middle_i \<and> j < nitems")
    case False
    have "merge_loop1 compar base nitems middle_i i j temp s = Return (i, j, temp, s)"
      by (subst merge_loop1.simps) (simp only: False if_False)
    then show ?thesis using "1.prems" by simp
  next
    case True
    have inb: "base + i < length (arr s) \<and> base + j < length (arr s)"
    proof (rule ccontr)
      assume n: "\<not> (base + i < length (arr s) \<and> base + j < length (arr s))"
      have "merge_loop1 compar base nitems middle_i i j temp s = Undefined"
        by (subst merge_loop1.simps) (simp only: True n if_True if_False simp_thms)
      then show False using "1.prems" by simp
    qed
    define s1 where "s1 = s\<lparr>compar_calls := compar_calls s + 1\<rparr>"
    show ?thesis
    proof (cases "compar (arr s ! (base + i)) (arr s ! (base + j)) \<le> 0")
      case c: True
      have unf: "merge_loop1 compar base nitems middle_i i j temp s =
          (case store_temp nitems temp (arr s1 ! (base + i)) of
             None \<Rightarrow> Undefined
           | Some temp1 \<Rightarrow> merge_loop1 compar base nitems middle_i (i + 1) j temp1 s1)"
        by (subst merge_loop1.simps)
           (simp only: True inb c if_True Let_def s1_def[symmetric] simp_thms)
      from "1.prems" unf obtain temp1 where
        st: "store_temp nitems temp (arr s1 ! (base + i)) = Some temp1"
        and r: "merge_loop1 compar base nitems middle_i (i + 1) j temp1 s1 = Return (i', j', temp', s')"
        by (cases "store_temp nitems temp (arr s1 ! (base + i))") simp_all
      from "1.IH"(1)[OF True inb refl s1_def c st r] show ?thesis by (simp add: s1_def)
    next
      case c: False
      have unf: "merge_loop1 compar base nitems middle_i i j temp s =
          (case store_temp nitems temp (arr s1 ! (base + j)) of
             None \<Rightarrow> Undefined
           | Some temp1 \<Rightarrow> merge_loop1 compar base nitems middle_i i (j + 1) temp1 s1)"
        by (subst merge_loop1.simps)
           (simp only: True inb c if_True if_False Let_def s1_def[symmetric] simp_thms)
      from "1.prems" unf obtain temp1 where
        st: "store_temp nitems temp (arr s1 ! (base + j)) = Some temp1"
        and r: "merge_loop1 compar base nitems middle_i i (j + 1) temp1 s1 = Return (i', j', temp', s')"
        by (cases "store_temp nitems temp (arr s1 ! (base + j))") simp_all
      from "1.IH"(2)[OF True inb refl s1_def c st r] show ?thesis by (simp add: s1_def)
    qed
  qed
qed

lemma merge_loop1_not_Exit:
  "merge_loop1 compar base nitems middle_i i j temp s \<noteq> Exit e"
proof (induction compar base nitems middle_i i j temp s rule: merge_loop1.induct)
  case (1 compar base nitems middle_i i j temp s)
  show ?case
  proof
    assume ex: "merge_loop1 compar base nitems middle_i i j temp s = Exit e"
    have c: "i < middle_i \<and> j < nitems"
    proof (rule ccontr)
      assume n: "\<not> (i < middle_i \<and> j < nitems)"
      have "merge_loop1 compar base nitems middle_i i j temp s = Return (i, j, temp, s)"
        by (subst merge_loop1.simps) (simp only: n if_False)
      then show False using ex by simp
    qed
    have inb: "base + i < length (arr s) \<and> base + j < length (arr s)"
    proof (rule ccontr)
      assume n: "\<not> (base + i < length (arr s) \<and> base + j < length (arr s))"
      have "merge_loop1 compar base nitems middle_i i j temp s = Undefined"
        by (subst merge_loop1.simps) (simp only: c n if_True if_False simp_thms)
      then show False using ex by simp
    qed
    define s1 where "s1 = s\<lparr>compar_calls := compar_calls s + 1\<rparr>"
    show False
    proof (cases "compar (arr s ! (base + i)) (arr s ! (base + j)) \<le> 0")
      case le: True
      have unf: "merge_loop1 compar base nitems middle_i i j temp s =
          (case store_temp nitems temp (arr s1 ! (base + i)) of
             None \<Rightarrow> Undefined
           | Some temp1 \<Rightarrow> merge_loop1 compar base nitems middle_i (i + 1) j temp1 s1)"
        by (subst merge_loop1.simps)
           (simp only: c inb le if_True Let_def s1_def[symmetric] simp_thms)
      from ex unf obtain temp1 where
        st: "store_temp nitems temp (arr s1 ! (base + i)) = Some temp1"
        and r: "merge_loop1 compar base nitems middle_i (i + 1) j temp1 s1 = Exit e"
        by (cases "store_temp nitems temp (arr s1 ! (base + i))") simp_all
      from "1.IH"(1)[OF c inb refl s1_def le st] r show False by simp
    next
      case le: False
      have unf: "merge_loop1 compar base nitems middle_i i j temp s =
          (case store_temp nitems temp (arr s1 ! (base + j)) of
             None \<Rightarrow> Undefined
           | Some temp1 \<Rightarrow> merge_loop1 compar base nitems middle_i i (j + 1) temp1 s1)"
        by (subst merge_loop1.simps)
           (simp only: c inb le if_True if_False Let_def s1_def[symmetric] simp_thms)
      from ex unf obtain temp1 where
        st: "store_temp nitems temp (arr s1 ! (base + j)) = Some temp1"
        and r: "merge_loop1 compar base nitems middle_i i (j + 1) temp1 s1 = Exit e"
        by (cases "store_temp nitems temp (arr s1 ! (base + j))") simp_all
      from "1.IH"(2)[OF c inb refl s1_def le st] r show False by simp
    qed
  qed
qed

lemma merge_loop2_not_Exit:
  "merge_loop2 base nitems middle_i i temp s \<noteq> Exit e"
proof (induction base nitems middle_i i temp s rule: merge_loop2.induct)
  case (1 base nitems middle_i i temp s)
  show ?case
    by (subst merge_loop2.simps) (use 1 in \<open>auto split: option.splits\<close>)
qed

lemma merge_loop3_not_Exit:
  "merge_loop3 base nitems j temp s \<noteq> Exit e"
proof (induction base nitems j temp s rule: merge_loop3.induct)
  case (1 base nitems j temp s)
  show ?case
    by (subst merge_loop3.simps) (use 1 in \<open>auto split: option.splits\<close>)
qed

lemma merge_loop2_length:
  "merge_loop2 base nitems middle_i i temp s = Return (i', temp')
   \<Longrightarrow> length temp' = length temp + (middle_i - i) \<and> (i < middle_i \<longrightarrow> length temp' \<le> nitems)"
proof (induction base nitems middle_i i temp s rule: merge_loop2.induct)
  case (1 base nitems middle_i i temp s)
  show ?case
  proof (cases "i < middle_i")
    case False
    have "merge_loop2 base nitems middle_i i temp s = Return (i, temp)"
      by (subst merge_loop2.simps) (simp only: False if_False)
    then show ?thesis using "1.prems" False by simp
  next
    case True
    have inb: "base + i < length (arr s)"
    proof (rule ccontr)
      assume n: "\<not> base + i < length (arr s)"
      have "merge_loop2 base nitems middle_i i temp s = Undefined"
        by (subst merge_loop2.simps) (simp only: True n if_True if_False simp_thms)
      then show False using "1.prems" by simp
    qed
    have unf: "merge_loop2 base nitems middle_i i temp s =
        (case store_temp nitems temp (arr s ! (base + i)) of
           None \<Rightarrow> Undefined
         | Some temp1 \<Rightarrow> merge_loop2 base nitems middle_i (i + 1) temp1 s)"
      by (subst merge_loop2.simps) (simp only: True inb if_True)
    from "1.prems" unf obtain temp1 where
      st: "store_temp nitems temp (arr s ! (base + i)) = Some temp1"
      and r: "merge_loop2 base nitems middle_i (i + 1) temp1 s = Return (i', temp')"
      by (cases "store_temp nitems temp (arr s ! (base + i))") simp_all
    have t1: "length temp1 = length temp + 1" "length temp < nitems"
      using st by (auto simp: store_temp_def split: if_splits)
    from "1.IH"[OF True inb st r] t1 True show ?thesis by auto
  qed
qed

lemma merge_Return_pre:
  assumes "merge alloc base nitems middle_i compar s = Return s'"
  shows "alloc (malloc_next s) \<and> middle_i \<le> nitems \<and> base + nitems \<le> length (arr s)"
proof -
  define s0 where "s0 = s\<lparr>malloc_next := malloc_next s + 1\<rparr>"
  have al: "alloc (malloc_next s)"
    using assms by (auto simp: merge_def Let_def split: if_splits)
  then have unf: "merge alloc base nitems middle_i compar s =
      and_then (merge_loop1 compar base nitems middle_i 0 middle_i [] s0) (\<lambda>(i, j, temp1, s1).
      and_then (merge_loop2 base nitems middle_i i temp1 s1) (\<lambda>(i', temp2).
      and_then (merge_loop3 base nitems j temp2 s1) (\<lambda>(j', temp3).
      memcpy base temp3 nitems s1)))"
    by (simp add: merge_def Let_def s0_def)
  from assms[unfolded unf] obtain i j temp1 s1 where
    e1: "merge_loop1 compar base nitems middle_i 0 middle_i [] s0 = Return (i, j, temp1, s1)"
    and r1: "and_then (merge_loop2 base nitems middle_i i temp1 s1) (\<lambda>(i', temp2).
      and_then (merge_loop3 base nitems j temp2 s1) (\<lambda>(j', temp3).
      memcpy base temp3 nitems s1)) = Return s'"
    by (auto simp: and_then_Return)
  from r1 obtain i' temp2 where
    e2: "merge_loop2 base nitems middle_i i temp1 s1 = Return (i', temp2)"
    and r2: "and_then (merge_loop3 base nitems j temp2 s1) (\<lambda>(j', temp3).
      memcpy base temp3 nitems s1) = Return s'"
    by (auto simp: and_then_Return)
  from r2 obtain j' temp3 where
    e4: "memcpy base temp3 nitems s1 = Return s'"
    by (auto simp: and_then_Return)
  have a1: "arr s1 = arr s" using merge_loop1_arr[OF e1] by (simp add: s0_def)
  have inb: "base + nitems \<le> length (arr s)"
    using e4 a1 by (auto simp: memcpy_def split: if_splits)
  have "middle_i \<le> nitems"
  proof (rule ccontr)
    assume "\<not> middle_i \<le> nitems"
    then have gt: "nitems < middle_i" by simp
    then have n: "\<not> (0 < middle_i \<and> middle_i < nitems)" by simp
    have "merge_loop1 compar base nitems middle_i 0 middle_i [] s0 = Return (0, middle_i, [], s0)"
      by (subst merge_loop1.simps) (simp only: n if_False)
    then have "i = 0" "temp1 = []" using e1 by simp_all
    with merge_loop2_length[OF e2]
    have "length temp2 = middle_i" "0 < middle_i \<longrightarrow> length temp2 \<le> nitems"
      by auto
    moreover have "0 < middle_i" using gt by simp
    ultimately show False using gt by simp
  qed
  then show ?thesis using al inb by simp
qed

lemma merge_mset:
  assumes "merge alloc base nitems middle_i compar s = Return s'"
  shows "mset (arr s') = mset (arr s)"
proof -
  from merge_Return_pre[OF assms]
  have "alloc (malloc_next s)" "middle_i \<le> nitems" "base + nitems \<le> length (arr s)"
    by simp_all
  from merge_permutes[where alloc=alloc and s=s and compar=compar, OF this(2,3,1)] assms
  show ?thesis by auto
qed

lemma memcpy_not_Exit: "memcpy base temp nitems s \<noteq> Exit e"
  by (simp add: memcpy_def)

lemma merge_Exit_arr:
  assumes "merge alloc base nitems middle_i compar s = Exit e"
  shows "arr e = arr s"
proof (cases "alloc (malloc_next s)")
  case False
  have "merge alloc base nitems middle_i compar s =
     Exit (s\<lparr>malloc_next := malloc_next s + 1,
             stderr := stderr s @ [''merge: memory allocation failed'' @ [CHR 0x0A]]\<rparr>)"
    by (rule merge_exit[where alloc=alloc and s=s, OF False])
  then have "e = s\<lparr>malloc_next := malloc_next s + 1,
             stderr := stderr s @ [''merge: memory allocation failed'' @ [CHR 0x0A]]\<rparr>"
    using assms by simp
  then show ?thesis by simp
next
  case True
  then have "merge alloc base nitems middle_i compar s =
      and_then (merge_loop1 compar base nitems middle_i 0 middle_i []
                  (s\<lparr>malloc_next := malloc_next s + 1\<rparr>)) (\<lambda>(i, j, temp1, s1).
      and_then (merge_loop2 base nitems middle_i i temp1 s1) (\<lambda>(i', temp2).
      and_then (merge_loop3 base nitems j temp2 s1) (\<lambda>(j', temp3).
      memcpy base temp3 nitems s1)))"
    by (simp add: merge_def Let_def)
  from assms[unfolded this] have False
    by (auto simp: and_then_Exit merge_loop1_not_Exit merge_loop2_not_Exit merge_loop3_not_Exit
          memcpy_not_Exit)
  then show ?thesis ..
qed

lemma merge_sort_rec_mset:
  "merge_sort_rec alloc base nitems compar s = Return s'
     \<or> merge_sort_rec alloc base nitems compar s = Exit s'
   \<Longrightarrow> mset (arr s') = mset (arr s)"
proof (induction nitems arbitrary: base s s' rule: less_induct)
  case (less nitems)
  show ?case
  proof (cases "nitems > 1")
    case False
    have "merge_sort_rec alloc base nitems compar s = Return s"
      by (subst merge_sort_rec.simps) (simp only: False if_False)
    then show ?thesis using less.prems by auto
  next
    case True
    define mid where "mid = nitems div 2"
    have mid: "mid < nitems" "nitems - mid < nitems" using True by (simp_all add: mid_def)
    have unf: "merge_sort_rec alloc base nitems compar s =
        and_then (merge_sort_rec alloc base mid compar s) (\<lambda>s1.
        and_then (merge_sort_rec alloc (base + mid) (nitems - mid) compar s1) (\<lambda>s2.
        merge alloc base nitems mid compar s2))"
      by (subst merge_sort_rec.simps) (simp only: True if_True Let_def mid_def)
    note ih1 = less.IH[OF mid(1)]
    note ih2 = less.IH[OF mid(2)]
    from less.prems[unfolded unf]
    consider
      (a) "merge_sort_rec alloc base mid compar s = Exit s'"
    | (b) s1 where "merge_sort_rec alloc base mid compar s = Return s1"
        "merge_sort_rec alloc (base + mid) (nitems - mid) compar s1 = Exit s'"
    | (c) s1 s2 where "merge_sort_rec alloc base mid compar s = Return s1"
        "merge_sort_rec alloc (base + mid) (nitems - mid) compar s1 = Return s2"
        "merge alloc base nitems mid compar s2 = Exit s'"
    | (d) s1 s2 where "merge_sort_rec alloc base mid compar s = Return s1"
        "merge_sort_rec alloc (base + mid) (nitems - mid) compar s1 = Return s2"
        "merge alloc base nitems mid compar s2 = Return s'"
      by (auto simp: and_then_Return and_then_Exit)
    then show ?thesis
    proof cases
      case a
      then show ?thesis using ih1[of base s s'] by simp
    next
      case b
      then show ?thesis using ih1[of base s s1] ih2[of "base + mid" s1 s'] by simp
    next
      case c
      then show ?thesis
        using ih1[of base s s1] ih2[of "base + mid" s1 s2] merge_Exit_arr[OF c(3)] by simp
    next
      case d
      then show ?thesis
        using ih1[of base s s1] ih2[of "base + mid" s1 s2] merge_mset[OF d(3)] by simp
    qed
  qed
qed

lemma merge_sort_mset:
  "merge_sort alloc base nitems compar s = Return s'
     \<or> merge_sort alloc base nitems compar s = Exit s'
   \<Longrightarrow> mset (arr s') = mset (arr s)"
  unfolding merge_sort_def
  using merge_sort_rec_mset[of alloc "the base" nitems "the compar" s s']
  by (auto split: if_splits)

section \<open>The properties of the specification\<close>

text \<open>
  Each property is stated for a range of the array, \<open>arr s = P @ X @ S\<close> with
  \<open>length P = base\<close> and \<open>length X = nitems\<close>; the sequence of the specification is \<open>X\<close>,
  and a call on a whole array is the case \<open>P = S = []\<close>.  The values of \<^verbatim>\<open>rand()\<close> are
  not negative, \<open>rnd k \<ge> 0\<close>.  Every theorem with a hypothesis is followed by a run on a
  concrete input.
\<close>

text \<open>
  C1.  As stated the claim fails for \<^verbatim>\<open>merge_sort\<close> when an allocation of the scratch
  buffer fails: the process ends with the range unsorted.  What holds, for every comparator
  that is a total preorder and every sequence \<open>X\<close> of \<open>N\<close> references (the range of the
  array behind \<open>P\<close> and before \<open>S\<close>): \<^verbatim>\<open>merge_sort\<close> returns whenever its scratch
  allocations succeed, and \<^verbatim>\<open>quick_sort\<close> returns for \<open>N < 2^32\<close> and every stream of
  non-negative \<^verbatim>\<open>rand()\<close> values; the range then holds a permutation of \<open>X\<close> that is
  non-decreasing under the comparator, and the rest of the array is unchanged.  For larger
  \<open>N\<close> a call of \<^verbatim>\<open>quick_sort\<close> ends in the same way unless one of its pivot
  computations is undefined (see C6).
\<close>

theorem sorts_sort:
  "(valid_comparator compar \<and> (\<forall>k. 0 \<le> rnd k) \<and> nitems < 2 ^ 32
      \<and> arr s = P @ X @ S \<and> length P = base \<and> length X = nitems \<longrightarrow>
      (\<exists>s' X'. quick_sort rnd (Some base) nitems (Some compar) s = Return s'
          \<and> arr s' = P @ X' @ S \<and> mset X' = mset X
          \<and> sorted_wrt (\<lambda>x y. compar x y \<le> 0) X'))
   \<and> (valid_comparator compar \<and> (\<forall>k. 0 \<le> rnd k) \<and> nitems < 2 ^ 64
      \<and> arr s = P @ X @ S \<and> length P = base \<and> length X = nitems \<longrightarrow>
      (quick_sort rnd (Some base) nitems (Some compar) s = Undefined \<and> 2 ^ 32 \<le> nitems)
      \<or> (\<exists>s' X'. quick_sort rnd (Some base) nitems (Some compar) s = Return s'
          \<and> arr s' = P @ X' @ S \<and> mset X' = mset X
          \<and> sorted_wrt (\<lambda>x y. compar x y \<le> 0) X'))
   \<and> (valid_comparator compar \<and> (\<forall>k<nitems - 1. alloc (malloc_next s + k))
      \<and> arr s = P @ X @ S \<and> length P = base \<and> length X = nitems \<longrightarrow>
      (\<exists>s' X'. merge_sort alloc (Some base) nitems (Some compar) s = Return s'
          \<and> arr s' = P @ X' @ S \<and> mset X' = mset X
          \<and> sorted_wrt (\<lambda>x y. compar x y \<le> 0) X'))"
proof (intro conjI impI)
  assume h: "valid_comparator compar \<and> (\<forall>k. 0 \<le> rnd k) \<and> nitems < 2 ^ 32
      \<and> arr s = P @ X @ S \<and> length P = base \<and> length X = nitems"
  then have v: "valid_comparator compar" and r: "\<forall>k. 0 \<le> rnd k" and n: "nitems < 2 ^ 32"
    and a: "arr s = P @ X @ S" and lP: "length P = base" and lX: "length X = nitems"
    by simp_all
  from quick_sort_frame[where compar=compar, OF r n a lP lX] v
  show "\<exists>s' X'. quick_sort rnd (Some base) nitems (Some compar) s = Return s'
          \<and> arr s' = P @ X' @ S \<and> mset X' = mset X
          \<and> sorted_wrt (\<lambda>x y. compar x y \<le> 0) X'"
    unfolding le_eq by blast
next
  assume h: "valid_comparator compar \<and> (\<forall>k. 0 \<le> rnd k) \<and> nitems < 2 ^ 64
      \<and> arr s = P @ X @ S \<and> length P = base \<and> length X = nitems"
  then have v: "valid_comparator compar" and r: "\<forall>k. 0 \<le> rnd k" and n: "nitems < 2 ^ 64"
    and a: "arr s = P @ X @ S" and lP: "length P = base" and lX: "length X = nitems"
    by simp_all
  from quick_sort_cases[where compar=compar, OF r n a lP lX] v
  show "(quick_sort rnd (Some base) nitems (Some compar) s = Undefined \<and> 2 ^ 32 \<le> nitems)
      \<or> (\<exists>s' X'. quick_sort rnd (Some base) nitems (Some compar) s = Return s'
          \<and> arr s' = P @ X' @ S \<and> mset X' = mset X
          \<and> sorted_wrt (\<lambda>x y. compar x y \<le> 0) X')"
    unfolding le_eq by blast
next
  assume h: "valid_comparator compar \<and> (\<forall>k<nitems - 1. alloc (malloc_next s + k))
      \<and> arr s = P @ X @ S \<and> length P = base \<and> length X = nitems"
  then have v: "valid_comparator compar" and ok: "\<forall>k<nitems - 1. alloc (malloc_next s + k)"
    and a: "arr s = P @ X @ S" and lP: "length P = base" and lX: "length X = nitems"
    by simp_all
  from merge_sort_frame[where alloc=alloc and compar=compar, OF a lP lX, THEN conjunct1, THEN mp, OF ok]
  obtain s' where e: "merge_sort alloc (Some base) nitems (Some compar) s = Return s'"
    and a': "arr s' = P @ msort compar X @ S" by blast
  have "sorted_wrt (\<lambda>x y. compar x y \<le> 0) (msort compar X)"
    using sorted_msort[OF v, of X] unfolding le_eq .
  then show "\<exists>s' X'. merge_sort alloc (Some base) nitems (Some compar) s = Return s'
          \<and> arr s' = P @ X' @ S \<and> mset X' = mset X
          \<and> sorted_wrt (\<lambda>x y. compar x y \<le> 0) X'"
    using e a' mset_msort[of compar X] by blast
qed

theorem sorts_sort_counterexample:
  "valid_comparator by_value
   \<and> merge_sort (\<lambda>k. False) (Some 0) 2 (Some by_value) (mem0 [2, 1]) =
       Exit ((mem0 [2, 1])\<lparr>malloc_next := 1,
               stderr := [''merge: memory allocation failed'' @ [CHR 0x0A]]\<rparr>)
   \<and> \<not> sorted_wrt (\<lambda>x y. by_value x y \<le> 0) [2, 1]"
proof (intro conjI)
  show "valid_comparator by_value" by (rule valid_by_value)
  show "merge_sort (\<lambda>k. False) (Some 0) 2 (Some by_value) (mem0 [2, 1]) =
       Exit ((mem0 [2, 1])\<lparr>malloc_next := 1,
               stderr := [''merge: memory allocation failed'' @ [CHR 0x0A]]\<rparr>)"
    by code_simp
  show "\<not> sorted_wrt (\<lambda>x y. by_value x y \<le> 0) [2, 1]"
    by (simp add: by_value_def)
qed

theorem sorts_sort_witness:
  "valid_comparator by_value
   \<and> quick_sort (\<lambda>k. 7) (Some 0) 4 (Some by_value) (mem0 [5, 1, 4, 3]) =
       Return ((mem0 [1, 3, 4, 5])\<lparr>rand_next := 2, compar_calls := 4,
                 rec_calls := [(0, 3), (0, 0), (2, 3), (2, 2), (4, 3)]\<rparr>)
   \<and> merge_sort (\<lambda>k. True) (Some 0) 4 (Some by_value) (mem0 [5, 1, 4, 3]) =
       Return ((mem0 [1, 3, 4, 5])\<lparr>malloc_next := 3, compar_calls := 5\<rparr>)
   \<and> (\<exists>s' X'. quick_sort (\<lambda>k. 7) (Some 0) 4 (Some by_value) (mem0 [5, 1, 4, 3]) = Return s'
          \<and> arr s' = [] @ X' @ [] \<and> mset X' = mset [5, 1, 4, 3]
          \<and> sorted_wrt (\<lambda>x y. by_value x y \<le> 0) X')
   \<and> ((quick_sort (\<lambda>k. 7) (Some 0) 4 (Some by_value) (mem0 [5, 1, 4, 3]) = Undefined
          \<and> (2::nat) ^ 32 \<le> 4)
      \<or> (\<exists>s' X'. quick_sort (\<lambda>k. 7) (Some 0) 4 (Some by_value) (mem0 [5, 1, 4, 3]) = Return s'
          \<and> arr s' = [] @ X' @ [] \<and> mset X' = mset [5, 1, 4, 3]
          \<and> sorted_wrt (\<lambda>x y. by_value x y \<le> 0) X'))
   \<and> (\<exists>s' X'. merge_sort (\<lambda>k. True) (Some 0) 4 (Some by_value) (mem0 [5, 1, 4, 3]) = Return s'
          \<and> arr s' = [] @ X' @ [] \<and> mset X' = mset [5, 1, 4, 3]
          \<and> sorted_wrt (\<lambda>x y. by_value x y \<le> 0) X')"
proof -
  note T1 = sorts_sort[where compar=by_value and s="mem0 [5, 1, 4, 3]"
      and P="[]" and X="[5, 1, 4, 3]" and S="[]" and base=0 and nitems=4
      and rnd="\<lambda>k. 7", THEN conjunct1, THEN mp]
  note T2 = sorts_sort[where compar=by_value and s="mem0 [5, 1, 4, 3]"
      and P="[]" and X="[5, 1, 4, 3]" and S="[]" and base=0 and nitems=4
      and rnd="\<lambda>k. 7", THEN conjunct2, THEN conjunct1, THEN mp]
  note T3 = sorts_sort[where compar=by_value and s="mem0 [5, 1, 4, 3]"
      and P="[]" and X="[5, 1, 4, 3]" and S="[]" and base=0 and nitems=4
      and alloc="\<lambda>k. True", THEN conjunct2, THEN conjunct2, THEN mp]
  have h1: "valid_comparator by_value \<and> (\<forall>k. 0 \<le> (\<lambda>k. 7::int) k) \<and> (4::nat) < 2 ^ 32
      \<and> arr (mem0 [5, 1, 4, 3]) = [] @ [5, 1, 4, 3] @ [] \<and> length ([]::int list) = 0
      \<and> length [5, 1, 4, 3::int] = 4"
    by (simp add: valid_by_value mem0_def)
  have h2: "valid_comparator by_value \<and> (\<forall>k. 0 \<le> (\<lambda>k. 7::int) k) \<and> (4::nat) < 2 ^ 64
      \<and> arr (mem0 [5, 1, 4, 3]) = [] @ [5, 1, 4, 3] @ [] \<and> length ([]::int list) = 0
      \<and> length [5, 1, 4, 3::int] = 4"
    by (simp add: valid_by_value mem0_def)
  have h3: "valid_comparator by_value
      \<and> (\<forall>k<4 - 1. (\<lambda>k. True) (malloc_next (mem0 [5, 1, 4, 3::int]) + k))
      \<and> arr (mem0 [5, 1, 4, 3]) = [] @ [5, 1, 4, 3] @ [] \<and> length ([]::int list) = 0
      \<and> length [5, 1, 4, 3::int] = 4"
    by (simp add: valid_by_value mem0_def)
  have run1: "quick_sort (\<lambda>k. 7) (Some 0) 4 (Some by_value) (mem0 [5, 1, 4, 3]) =
       Return ((mem0 [1, 3, 4, 5])\<lparr>rand_next := 2, compar_calls := 4,
                 rec_calls := [(0, 3), (0, 0), (2, 3), (2, 2), (4, 3)]\<rparr>)"
    by code_simp
  have run2: "merge_sort (\<lambda>k. True) (Some 0) 4 (Some by_value) (mem0 [5, 1, 4, 3]) =
       Return ((mem0 [1, 3, 4, 5])\<lparr>malloc_next := 3, compar_calls := 5\<rparr>)"
    by code_simp
  show ?thesis
    by (intro conjI valid_by_value run1 run2 T1[OF h1] T2[OF h2] T3[OF h3])
qed

text \<open>
  C2.  \<^verbatim>\<open>merge_sort\<close> is stable.  For a comparator that defines a total preorder the
  call returns when its scratch allocations succeed (and ends the process otherwise), and
  in the array it leaves, for every reference \<open>x\<close>, the references that compare equal to
  \<open>x\<close> stand in the order they had in the input.  In the merge primitive, when the
  elements under the two cursors compare equal, the next step takes the element of the
  left sub-range: it is appended to the scratch buffer and only the left cursor advances.
\<close>

theorem merge_sort_stable:
  "(valid_comparator compar \<and> arr s = P @ X @ S \<and> length P = base \<and> length X = nitems \<longrightarrow>
      (\<exists>s' X'. (merge_sort alloc (Some base) nitems (Some compar) s = Return s'
                 \<or> merge_sort alloc (Some base) nitems (Some compar) s = Exit s')
          \<and> ((\<forall>k<nitems - 1. alloc (malloc_next s + k)) \<longrightarrow>
                 merge_sort alloc (Some base) nitems (Some compar) s = Return s')
          \<and> arr s' = P @ X' @ S
          \<and> (\<forall>x. filter (\<lambda>y. compar x y = 0) X' = filter (\<lambda>y. compar x y = 0) X)))
   \<and> (i < middle_i \<and> j < nitems \<and> base + i < length (arr s) \<and> base + j < length (arr s)
      \<and> length temp < nitems \<and> compar (arr s ! (base + i)) (arr s ! (base + j)) = 0 \<longrightarrow>
      merge_loop1 compar base nitems middle_i i j temp s =
        merge_loop1 compar base nitems middle_i (i + 1) j (temp @ [arr s ! (base + i)])
          (s\<lparr>compar_calls := compar_calls s + 1\<rparr>))"
proof (intro conjI impI)
  assume h: "valid_comparator compar \<and> arr s = P @ X @ S \<and> length P = base \<and> length X = nitems"
  then have v: "valid_comparator compar" and a: "arr s = P @ X @ S" and lP: "length P = base"
    and lX: "length X = nitems"
    by simp_all
  note fr = merge_sort_frame[where alloc=alloc and compar=compar, OF a lP lX]
  show "\<exists>s' X'. (merge_sort alloc (Some base) nitems (Some compar) s = Return s'
                 \<or> merge_sort alloc (Some base) nitems (Some compar) s = Exit s')
          \<and> ((\<forall>k<nitems - 1. alloc (malloc_next s + k)) \<longrightarrow>
                 merge_sort alloc (Some base) nitems (Some compar) s = Return s')
          \<and> arr s' = P @ X' @ S
          \<and> (\<forall>x. filter (\<lambda>y. compar x y = 0) X' = filter (\<lambda>y. compar x y = 0) X)"
  proof (cases "\<forall>k<nitems - 1. alloc (malloc_next s + k)")
    case True
    with fr obtain s' where e: "merge_sort alloc (Some base) nitems (Some compar) s = Return s'"
      and a': "arr s' = P @ msort compar X @ S" by blast
    have "\<forall>x. filter (\<lambda>y. compar x y = 0) (msort compar X) = filter (\<lambda>y. compar x y = 0) X"
      using filter_msort[OF v] by simp
    then show ?thesis using e a'
      by - (rule exI[of _ s'], rule exI[of _ "msort compar X"], simp)
  next
    case False
    with fr v obtain s' X' where e: "merge_sort alloc (Some base) nitems (Some compar) s = Exit s'"
      and a': "arr s' = P @ X' @ S"
      and f: "\<forall>x. filter (\<lambda>y. compar x y = 0) X' = filter (\<lambda>y. compar x y = 0) X" by blast
    then show ?thesis using False
      by - (rule exI[of _ s'], rule exI[of _ X'], simp)
  qed
next
  assume h: "i < middle_i \<and> j < nitems \<and> base + i < length (arr s) \<and> base + j < length (arr s)
      \<and> length temp < nitems \<and> compar (arr s ! (base + i)) (arr s ! (base + j)) = 0"
  then have c: "i < middle_i \<and> j < nitems"
    and inb: "base + i < length (arr s) \<and> base + j < length (arr s)"
    and z: "compar (arr s ! (base + i)) (arr s ! (base + j)) \<le> 0"
    by simp_all
  have st: "store_temp nitems temp (arr s ! (base + i)) = Some (temp @ [arr s ! (base + i)])"
    using h by (simp add: store_temp_def)
  have a1: "arr (s\<lparr>compar_calls := compar_calls s + 1\<rparr>) = arr s" by simp
  show "merge_loop1 compar base nitems middle_i i j temp s =
        merge_loop1 compar base nitems middle_i (i + 1) j (temp @ [arr s ! (base + i)])
          (s\<lparr>compar_calls := compar_calls s + 1\<rparr>)"
    by (subst merge_loop1.simps)
       (simp only: c inb z if_True Let_def a1 st option.simps simp_thms)
qed

theorem merge_sort_stable_witness:
  "valid_comparator by_key
   \<and> merge_sort (\<lambda>k. True) (Some 0) 4 (Some by_key) (mem0 [(2::int, 0::int), (1, 1), (2, 2), (1, 3)]) =
       Return ((mem0 [(1, 1), (1, 3), (2, 0), (2, 2)])\<lparr>malloc_next := 3, compar_calls := 5\<rparr>)
   \<and> (\<exists>s' X'. (merge_sort (\<lambda>k. True) (Some 0) 4 (Some by_key)
                   (mem0 [(2::int, 0::int), (1, 1), (2, 2), (1, 3)]) = Return s'
                 \<or> merge_sort (\<lambda>k. True) (Some 0) 4 (Some by_key)
                   (mem0 [(2::int, 0::int), (1, 1), (2, 2), (1, 3)]) = Exit s')
          \<and> ((\<forall>k<4 - 1. (\<lambda>k. True) (malloc_next (mem0 [(2::int, 0::int), (1, 1), (2, 2), (1, 3)]) + k)) \<longrightarrow>
                 merge_sort (\<lambda>k. True) (Some 0) 4 (Some by_key)
                   (mem0 [(2::int, 0::int), (1, 1), (2, 2), (1, 3)]) = Return s')
          \<and> arr s' = [] @ X' @ []
          \<and> (\<forall>x. filter (\<lambda>y. by_key x y = 0) X' =
                   filter (\<lambda>y. by_key x y = 0) [(2::int, 0::int), (1, 1), (2, 2), (1, 3)]))
   \<and> merge_loop1 by_key 0 4 2 0 2 [] (mem0 [(1::int, 1::int), (2, 0), (1, 3), (2, 2)]) =
        merge_loop1 by_key 0 4 2 (0 + 1) 2 ([] @ [arr (mem0 [(1::int, 1::int), (2, 0), (1, 3), (2, 2)]) ! (0 + 0)])
          ((mem0 [(1::int, 1::int), (2, 0), (1, 3), (2, 2)])
              \<lparr>compar_calls := compar_calls (mem0 [(1::int, 1::int), (2, 0), (1, 3), (2, 2)]) + 1\<rparr>)"
proof -
  note T1 = merge_sort_stable[where compar=by_key and s="mem0 [(2::int, 0::int), (1, 1), (2, 2), (1, 3)]"
      and P="[]" and X="[(2::int, 0::int), (1, 1), (2, 2), (1, 3)]" and S="[]" and base=0 and nitems=4
      and alloc="\<lambda>k. True", THEN conjunct1, THEN mp]
  note T2 = merge_sort_stable[where compar=by_key and s="mem0 [(1::int, 1::int), (2, 0), (1, 3), (2, 2)]"
      and base=0 and nitems=4 and middle_i=2 and i=0 and j=2 and temp="[]",
      THEN conjunct2, THEN mp]
  have h1: "valid_comparator by_key
      \<and> arr (mem0 [(2::int, 0::int), (1, 1), (2, 2), (1, 3)]) = [] @ [(2::int, 0::int), (1, 1), (2, 2), (1, 3)] @ []
      \<and> length ([]::(int \<times> int) list) = 0 \<and> length [(2::int, 0::int), (1, 1), (2, 2), (1, 3)] = 4"
    by (simp add: valid_by_key mem0_def)
  have h2: "(0::nat) < 2 \<and> (2::nat) < 4
      \<and> 0 + 0 < length (arr (mem0 [(1::int, 1::int), (2, 0), (1, 3), (2, 2)]))
      \<and> 0 + 2 < length (arr (mem0 [(1::int, 1::int), (2, 0), (1, 3), (2, 2)]))
      \<and> length ([]::(int \<times> int) list) < 4
      \<and> by_key (arr (mem0 [(1::int, 1::int), (2, 0), (1, 3), (2, 2)]) ! (0 + 0))
                (arr (mem0 [(1::int, 1::int), (2, 0), (1, 3), (2, 2)]) ! (0 + 2)) = 0"
    by (simp add: mem0_def by_key_def by_value_def)
  have run: "merge_sort (\<lambda>k. True) (Some 0) 4 (Some by_key) (mem0 [(2::int, 0::int), (1, 1), (2, 2), (1, 3)]) =
       Return ((mem0 [(1, 1), (1, 3), (2, 0), (2, 2)])\<lparr>malloc_next := 3, compar_calls := 5\<rparr>)"
    by code_simp
  show ?thesis
    by (intro conjI valid_by_key run T1[OF h1] T2[OF h2])
qed

text \<open>
  C3.  For every range \<open>[low, high]\<close> with \<open>low \<le> high\<close> inside the array and every
  comparator, \<^verbatim>\<open>partition\<close> returns an index \<open>i\<close> with \<open>low \<le> i \<le> high\<close>; afterwards
  the pivot (the reference that was at index \<open>high\<close>) is at index \<open>i\<close>, every element at
  an index in \<open>[low, i - 1]\<close> compares strictly less than the pivot, no element at an index
  in \<open>[i + 1, high]\<close> does, and the multiset of references in \<open>[low, high]\<close> is unchanged
  (as is everything outside the range).
\<close>

theorem partition_postcondition:
  assumes "low \<le> high" "base + high < length (arr s)"
  shows "\<exists>s' i. partition_c base low high compar s = Return (s', i)
           \<and> low \<le> i \<and> i \<le> high
           \<and> arr s' ! (base + i) = arr s ! (base + high)
           \<and> (\<forall>k. low \<le> k \<and> k < i \<longrightarrow> compar (arr s' ! (base + k)) (arr s ! (base + high)) < 0)
           \<and> (\<forall>k. i < k \<and> k \<le> high \<longrightarrow> \<not> compar (arr s' ! (base + k)) (arr s ! (base + high)) < 0)
           \<and> mset (take (high + 1 - low) (drop (base + low) (arr s'))) =
               mset (take (high + 1 - low) (drop (base + low) (arr s)))
           \<and> length (arr s') = length (arr s)
           \<and> (\<forall>k. k < base + low \<or> base + high < k \<longrightarrow> arr s' ! k = arr s ! k)"
proof -
  from partition_spec[OF assms, of compar] obtain xs i where
    eq: "partition_c base low high compar s =
           Return (s\<lparr>arr := xs, compar_calls := compar_calls s + (high - low)\<rparr>, i)"
    and b: "low \<le> i" "i \<le> high"
    and l: "length xs = length (arr s)" and m: "mset xs = mset (arr s)"
    and u: "\<forall>k. k < base + low \<or> base + high < k \<longrightarrow> xs ! k = arr s ! k"
    and at: "xs ! (base + i) = arr s ! (base + high)"
    and lt: "\<forall>k. low \<le> k \<and> k < i \<longrightarrow> compar (xs ! (base + k)) (arr s ! (base + high)) < 0"
    and ge: "\<forall>k. i < k \<and> k \<le> high \<longrightarrow> \<not> compar (xs ! (base + k)) (arr s ! (base + high)) < 0"
    by blast
  define P where "P = take (base + low) (arr s)"
  define X where "X = take (high + 1 - low) (drop (base + low) (arr s))"
  define S where "S = drop (high + 1 - low) (drop (base + low) (arr s))"
  define X' where "X' = take (high + 1 - low) (drop (base + low) xs)"
  have lP: "length P = base + low" and lX: "length X = high + 1 - low"
    using assms by (simp_all add: P_def X_def)
  have "drop (base + low) (arr s) = X @ S"
    unfolding X_def S_def by (rule append_take_drop_id[symmetric])
  moreover have "arr s = P @ drop (base + low) (arr s)"
    unfolding P_def by (rule append_take_drop_id[symmetric])
  ultimately have dec: "arr s = P @ X @ S" by simp
  have len: "length xs = length P + length X + length S" using l dec by simp
  have out: "\<forall>k. k < length P \<or> length P + length X \<le> k \<longrightarrow> xs ! k = (P @ X @ S) ! k"
    using u assms(1) unfolding dec[symmetric] lP lX by auto
  have fr: "xs = P @ X' @ S"
    using frame_outside[OF len out] unfolding lP lX X'_def .
  have "mset (P @ X' @ S) = mset (P @ X @ S)" using m fr dec by simp
  then have ms: "mset X' = mset X" by simp
  show ?thesis
    using eq b at lt ge ms l u unfolding X'_def X_def
    by - (rule exI[of _ "s\<lparr>arr := xs, compar_calls := compar_calls s + (high - low)\<rparr>"],
          rule exI[of _ i], simp)
qed

theorem partition_postcondition_witness:
  "(0::nat) \<le> 3 \<and> 0 + 3 < length (arr (mem0 [5, 1, 4, 3::int]))
   \<and> partition_c 0 0 3 by_value (mem0 [5, 1, 4, 3]) =
       Return ((mem0 [1, 3, 4, 5])\<lparr>compar_calls := 3\<rparr>, 1)
   \<and> (\<exists>s' i. partition_c 0 0 3 by_value (mem0 [5, 1, 4, 3]) = Return (s', i)
           \<and> 0 \<le> i \<and> i \<le> 3
           \<and> arr s' ! (0 + i) = arr (mem0 [5, 1, 4, 3]) ! (0 + 3)
           \<and> (\<forall>k. 0 \<le> k \<and> k < i \<longrightarrow>
                  by_value (arr s' ! (0 + k)) (arr (mem0 [5, 1, 4, 3]) ! (0 + 3)) < 0)
           \<and> (\<forall>k. i < k \<and> k \<le> 3 \<longrightarrow>
                  \<not> by_value (arr s' ! (0 + k)) (arr (mem0 [5, 1, 4, 3]) ! (0 + 3)) < 0)
           \<and> mset (take (3 + 1 - 0) (drop (0 + 0) (arr s'))) =
               mset (take (3 + 1 - 0) (drop (0 + 0) (arr (mem0 [5, 1, 4, 3]))))
           \<and> length (arr s') = length (arr (mem0 [5, 1, 4, 3::int]))
           \<and> (\<forall>k. k < 0 + 0 \<or> 0 + 3 < k \<longrightarrow> arr s' ! k = arr (mem0 [5, 1, 4, 3]) ! k))"
proof -
  have h1: "(0::nat) \<le> 3" by simp
  have h2: "0 + 3 < length (arr (mem0 [5, 1, 4, 3::int]))" by (simp add: mem0_def)
  have run: "partition_c 0 0 3 by_value (mem0 [5, 1, 4, 3]) =
       Return ((mem0 [1, 3, 4, 5])\<lparr>compar_calls := 3\<rparr>, 1)"
    by code_simp
  show ?thesis
    by (intro conjI h1 h2 run partition_postcondition[OF h1 h2])
qed

text \<open>
  C4.  Both entry points reject a null sequence or a null comparator: the call prints its
  diagnostic and returns at once, and nothing else changes (the array is not touched, the
  comparator is not invoked).  With a sequence and a comparator that are not null, a call
  with \<open>N = 0\<close> or \<open>N = 1\<close> returns without a diagnostic, leaves the array as it was and
  never invokes the comparator.
\<close>

theorem entry_contract:
  "(base = None \<or> compar = None \<longrightarrow>
      quick_sort rnd base nitems compar s =
        Return (s\<lparr>stderr := stderr s @ [''quick_sort: base and compar cannot be NULL'' @ [CHR 0x0A]]\<rparr>)
      \<and> merge_sort alloc base nitems compar s =
        Return (s\<lparr>stderr := stderr s @ [''merge_sort: base and compar cannot be NULL'' @ [CHR 0x0A]]\<rparr>))
   \<and> (n \<le> 1 \<longrightarrow>
      (\<exists>s'. quick_sort rnd (Some b) n (Some c) s = Return s'
          \<and> arr s' = arr s \<and> stderr s' = stderr s \<and> compar_calls s' = compar_calls s)
      \<and> merge_sort alloc (Some b) n (Some c) s = Return s)"
proof (intro conjI impI)
  assume "base = None \<or> compar = None"
  then show "quick_sort rnd base nitems compar s =
        Return (s\<lparr>stderr := stderr s @ [''quick_sort: base and compar cannot be NULL'' @ [CHR 0x0A]]\<rparr>)"
    by (simp add: quick_sort_def)
next
  assume "base = None \<or> compar = None"
  then show "merge_sort alloc base nitems compar s =
        Return (s\<lparr>stderr := stderr s @ [''merge_sort: base and compar cannot be NULL'' @ [CHR 0x0A]]\<rparr>)"
    by (simp add: merge_sort_def)
next
  assume n: "n \<le> 1"
  show "\<exists>s'. quick_sort rnd (Some b) n (Some c) s = Return s'
          \<and> arr s' = arr s \<and> stderr s' = stderr s \<and> compar_calls s' = compar_calls s"
  proof (cases "n = 0")
    case True
    then show ?thesis by (simp add: quick_sort_def)
  next
    case False
    then have "n = 1" using n by simp
    then show ?thesis
      by (simp add: quick_sort_def quick_sort_rec.simps[of rnd b 0 0])
  qed
next
  assume "n \<le> 1"
  then show "merge_sort alloc (Some b) n (Some c) s = Return s"
    by (simp add: merge_sort_def)
qed

theorem entry_contract_witness:
  "quick_sort (\<lambda>k. 7) None 4 (Some by_value) (mem0 [5, 1, 4, 3::int]) =
     Return ((mem0 [5, 1, 4, 3::int])\<lparr>stderr := stderr (mem0 [5, 1, 4, 3::int]) @
        [''quick_sort: base and compar cannot be NULL'' @ [CHR 0x0A]]\<rparr>)
   \<and> merge_sort (\<lambda>k. True) None 4 (Some by_value) (mem0 [5, 1, 4, 3::int]) =
     Return ((mem0 [5, 1, 4, 3::int])\<lparr>stderr := stderr (mem0 [5, 1, 4, 3::int]) @
        [''merge_sort: base and compar cannot be NULL'' @ [CHR 0x0A]]\<rparr>)
   \<and> (\<exists>s'. quick_sort (\<lambda>k. 7) (Some 0) 1 (Some by_value) (mem0 [5, 1, 4, 3::int]) = Return s'
          \<and> arr s' = arr (mem0 [5, 1, 4, 3::int]) \<and> stderr s' = stderr (mem0 [5, 1, 4, 3::int])
          \<and> compar_calls s' = compar_calls (mem0 [5, 1, 4, 3::int]))
   \<and> merge_sort (\<lambda>k. True) (Some 0) 1 (Some by_value) (mem0 [5, 1, 4, 3::int]) =
        Return (mem0 [5, 1, 4, 3::int])"
proof -
  note T = entry_contract[where base=None and compar="Some by_value" and rnd="\<lambda>k. 7"
      and nitems=4 and s="mem0 [5, 1, 4, 3::int]" and alloc="\<lambda>k. True" and n=1 and b=0
      and c=by_value]
  have h1: "(None::nat option) = None \<or> Some by_value = None" by simp
  have h2: "(1::nat) \<le> 1" by simp
  note c1 = T[THEN conjunct1, THEN mp, OF h1]
  note c2 = T[THEN conjunct2, THEN mp, OF h2]
  show ?thesis
    by (intro conjI c1[THEN conjunct1] c1[THEN conjunct2] c2[THEN conjunct1] c2[THEN conjunct2])
qed

text \<open>
  C5.  As stated the claim fails: the guard of the left recursive call in
  \<^verbatim>\<open>quick_sort_rec\<close> is \<^verbatim>\<open>pi > 0\<close>, not \<^verbatim>\<open>pi > low\<close>, so when the pivot lands on
  \<open>pi = low > 0\<close> the call on \<open>[low, pi - 1]\<close> is made.  What holds, for a range
  \<open>low < high\<close> inside the array: after the pivot selector and \<^verbatim>\<open>partition\<close> have
  returned \<open>pi\<close>, the next call that \<^verbatim>\<open>quick_sort_rec\<close> makes (the entry of the call log
  right after its own) is the left call on \<open>[low, pi - 1]\<close> if and only if \<open>pi > 0\<close>;
  otherwise, \<open>pi = 0\<close>, it is the right call on \<open>[pi + 1, high]\<close> and \<open>pi - 1\<close> is never
  computed.  When \<open>pi = low > 0\<close> the left call is on the empty range \<open>[low, low - 1]\<close>:
  it returns at once and changes nothing but the log.
\<close>

theorem left_recursion_guard:
  "(\<forall>k. 0 \<le> rnd k) \<and> high + 1 < 2 ^ 32 \<and> low < high \<and> base + high < length (arr s) \<longrightarrow>
   (\<exists>s1 s2 pi s' t.
        choose_random_pivot rnd base low high (s\<lparr>rec_calls := rec_calls s @ [(low, high)]\<rparr>)
          = Return s1
      \<and> partition_c base low high compar s1 = Return (s2, pi)
      \<and> low \<le> pi \<and> pi \<le> high
      \<and> quick_sort_rec rnd base low high compar s = Return s'
      \<and> rec_calls s' = rec_calls s @ (low, high) # t
      \<and> (if pi > 0 then (\<exists>t'. t = (low, pi - 1) # t') else (\<exists>t'. t = (pi + 1, high) # t'))
      \<and> (pi = low \<and> pi > 0 \<longrightarrow>
            quick_sort_rec rnd base low (pi - 1) compar s2 =
              Return (s2\<lparr>rec_calls := rec_calls s2 @ [(low, pi - 1)]\<rparr>)))"
proof
  assume h: "(\<forall>k. 0 \<le> rnd k) \<and> high + 1 < 2 ^ 32 \<and> low < high \<and> base + high < length (arr s)"
  then have r: "\<forall>k. 0 \<le> rnd k" and hi: "high + 1 < 2 ^ 32" and lt: "low < high"
    and inb: "base + high < length (arr s)" by simp_all
  have lh: "low \<le> high" using lt by simp
  define P where "P = take (base + low) (arr s)"
  define X where "X = take (high + 1 - low) (drop (base + low) (arr s))"
  define S where "S = drop (high + 1 - low) (drop (base + low) (arr s))"
  have "high + 1 - low \<le> length (arr s) - (base + low)" using inb lt by linarith
  then have lP: "length P = base + low" and lX: "length X = high + 1 - low"
    using inb lt by (simp_all add: P_def X_def)
  have dec: "arr s = P @ X @ S" unfolding P_def X_def S_def by (rule frame_split)
  define s0 where "s0 = s\<lparr>rec_calls := rec_calls s @ [(low, high)]\<rparr>"
  have a0: "arr s0 = P @ X @ S" using dec by (simp add: s0_def)
  have r0: "0 \<le> rnd (rand_next s0)" using r by simp
  from choose_random_pivot_frame[where rnd=rnd and s=s0, OF lh hi r0 a0 lP lX]
  obtain X1 where
    e1: "choose_random_pivot rnd base low high s0 =
           Return (s0\<lparr>arr := P @ X1 @ S, rand_next := rand_next s0 + 1\<rparr>)"
    and l1: "length X1 = length X" by blast
  define s1 where "s1 = s0\<lparr>arr := P @ X1 @ S, rand_next := rand_next s0 + 1\<rparr>"
  have a1: "arr s1 = P @ X1 @ S" by (simp add: s1_def)
  have lx1: "length X1 = high + 1 - low" using l1 lX by simp
  define p where "p = last X1"
  from partition_frame[where compar=compar, OF lh a1 lP lx1]
  obtain L R pi where
    e2: "partition_c base low high compar s1 =
           Return (s1\<lparr>arr := P @ L @ [p] @ R @ S,
                      compar_calls := compar_calls s1 + (high - low)\<rparr>, pi)"
    and b: "low \<le> pi" "pi \<le> high"
    and lL: "length L = pi - low" and lR: "length R = high - pi"
    unfolding p_def by blast
  define s2 where "s2 = s1\<lparr>arr := P @ L @ [p] @ R @ S,
                             compar_calls := compar_calls s1 + (high - low)\<rparr>"
  have rc2: "rec_calls s2 = rec_calls s @ [(low, high)]"
    by (simp add: s2_def s1_def s0_def)
  have e1': "choose_random_pivot rnd base low high s0 = Return s1"
    using e1 by (simp only: s1_def)
  have e2': "partition_c base low high compar s1 = Return (s2, pi)"
    using e2 by (simp only: s2_def)
  have "\<exists>s3 t3. (if pi > 0 then quick_sort_rec rnd base low (pi - 1) compar s2 else Return s2)
                     = Return s3
             \<and> (\<exists>L'. arr s3 = P @ L' @ ([p] @ R @ S) \<and> length L' = length L)
             \<and> rec_calls s3 = rec_calls s2 @ t3
             \<and> (if pi > 0 then (\<exists>t'. t3 = (low, pi - 1) # t') else t3 = [])"
  proof (cases "pi > 0")
    case True
    have "pi - 1 + 1 < 2 ^ 32" using True b hi by simp
    moreover have "arr s2 = P @ L @ ([p] @ R @ S)" by (simp add: s2_def)
    moreover have "length L = pi - 1 + 1 - low" using True lL by simp
    ultimately obtain s3 L' t where
      "quick_sort_rec rnd base low (pi - 1) compar s2 = Return s3"
      "arr s3 = P @ L' @ ([p] @ R @ S)" "mset L' = mset L"
      "rec_calls s3 = rec_calls s2 @ (low, pi - 1) # t"
      using quick_sort_rec_frame[where rnd=rnd and compar=compar and s=s2 and low=low
          and high="pi - 1" and P=P and X=L and S="[p] @ R @ S", OF r _ _ lP]
      by blast
    moreover from this have "length L' = length L" by (metis size_mset)
    ultimately show ?thesis using True by auto
  next
    case False
    then show ?thesis by (intro exI[of _ s2] exI[of _ "[]"]) (auto simp: s2_def)
  qed
  then obtain s3 t3 L' where
    e3: "(if pi > 0 then quick_sort_rec rnd base low (pi - 1) compar s2 else Return s2) = Return s3"
    and a3: "arr s3 = P @ L' @ ([p] @ R @ S)" and lL': "length L' = length L"
    and rc3: "rec_calls s3 = rec_calls s2 @ t3"
    and t3: "if pi > 0 then (\<exists>t'. t3 = (low, pi - 1) # t') else t3 = []"
    by blast
  have "arr s3 = (P @ L' @ [p]) @ R @ S" using a3 by simp
  moreover have "length (P @ L' @ [p]) = base + (pi + 1)" using lL' lL lP b by simp
  moreover have "length R = high + 1 - (pi + 1)" using lR by simp
  ultimately obtain s4 t4 where
    e4: "quick_sort_rec rnd base (pi + 1) high compar s3 = Return s4"
    and rc4: "rec_calls s4 = rec_calls s3 @ (pi + 1, high) # t4"
    using quick_sort_rec_frame[where rnd=rnd and compar=compar and s=s3 and low="pi + 1"
        and high=high and P="P @ L' @ [p]" and X=R and S=S, OF r hi]
    by blast
  have eq: "quick_sort_rec rnd base low high compar s = Return s4"
    by (subst quick_sort_rec.simps)
       (simp only: Let_def s0_def[symmetric] lt if_True e1' and_then.simps e2' prod.case e3 e4)
  define t where "t = t3 @ (pi + 1, high) # t4"
  have rc: "rec_calls s4 = rec_calls s @ (low, high) # t"
    using rc2 rc3 rc4 by (simp add: t_def)
  have nxt: "if pi > 0 then (\<exists>t'. t = (low, pi - 1) # t') else (\<exists>t'. t = (pi + 1, high) # t')"
    using t3 by (auto simp: t_def)
  have empty: "quick_sort_rec rnd base low (pi - 1) compar s2 =
              Return (s2\<lparr>rec_calls := rec_calls s2 @ [(low, pi - 1)]\<rparr>)" if "pi = low \<and> pi > 0"
  proof -
    have "\<not> low < pi - 1" using that by simp
    then show ?thesis by (subst quick_sort_rec.simps) (simp only: Let_def if_False)
  qed
  show "\<exists>s1 s2 pi s' t.
        choose_random_pivot rnd base low high (s\<lparr>rec_calls := rec_calls s @ [(low, high)]\<rparr>)
          = Return s1
      \<and> partition_c base low high compar s1 = Return (s2, pi)
      \<and> low \<le> pi \<and> pi \<le> high
      \<and> quick_sort_rec rnd base low high compar s = Return s'
      \<and> rec_calls s' = rec_calls s @ (low, high) # t
      \<and> (if pi > 0 then (\<exists>t'. t = (low, pi - 1) # t') else (\<exists>t'. t = (pi + 1, high) # t'))
      \<and> (pi = low \<and> pi > 0 \<longrightarrow>
            quick_sort_rec rnd base low (pi - 1) compar s2 =
              Return (s2\<lparr>rec_calls := rec_calls s2 @ [(low, pi - 1)]\<rparr>))"
    using e1'[unfolded s0_def] e2' b eq rc nxt empty
    by - (rule exI[of _ s1], rule exI[of _ s2], rule exI[of _ pi], rule exI[of _ s4],
          rule exI[of _ t], simp)
qed

theorem left_recursion_guard_counterexample:
  "choose_random_pivot (\<lambda>k. 1) 0 1 2 ((mem0 [0, 2, 1::int])\<lparr>rec_calls := [(1, 2)]\<rparr>) =
     Return ((mem0 [0, 2, 1::int])\<lparr>rand_next := 1, rec_calls := [(1, 2)]\<rparr>)
   \<and> partition_c 0 1 2 by_value ((mem0 [0, 2, 1])\<lparr>rand_next := 1, rec_calls := [(1, 2)]\<rparr>) =
     Return ((mem0 [0, 1, 2])\<lparr>rand_next := 1, compar_calls := 1, rec_calls := [(1, 2)]\<rparr>, 1)
   \<and> quick_sort_rec (\<lambda>k. 1) 0 1 2 by_value (mem0 [0, 2, 1]) =
     Return ((mem0 [0, 1, 2])\<lparr>rand_next := 1, compar_calls := 1,
               rec_calls := [(1, 2), (1, 0), (2, 2)]\<rparr>)"
  by (intro conjI) code_simp+

theorem left_recursion_guard_witness:
  "(1::nat) < 2 \<and> 0 + 2 < length (arr (mem0 [0, 2, 1::int]))
   \<and> (\<exists>s1 s2 pi s' t.
        choose_random_pivot (\<lambda>k. 1) 0 1 2 ((mem0 [0, 2, 1::int])\<lparr>rec_calls := rec_calls (mem0 [0, 2, 1::int]) @ [(1, 2)]\<rparr>)
          = Return s1
      \<and> partition_c 0 1 2 by_value s1 = Return (s2, pi)
      \<and> 1 \<le> pi \<and> pi \<le> 2
      \<and> quick_sort_rec (\<lambda>k. 1) 0 1 2 by_value (mem0 [0, 2, 1::int]) = Return s'
      \<and> rec_calls s' = rec_calls (mem0 [0, 2, 1::int]) @ (1, 2) # t
      \<and> (if pi > 0 then (\<exists>t'. t = (1, pi - 1) # t') else (\<exists>t'. t = (pi + 1, 2) # t'))
      \<and> (pi = 1 \<and> pi > 0 \<longrightarrow>
            quick_sort_rec (\<lambda>k. 1) 0 1 (pi - 1) by_value s2 =
              Return (s2\<lparr>rec_calls := rec_calls s2 @ [(1, pi - 1)]\<rparr>)))"
proof -
  note T = left_recursion_guard[where s="mem0 [0, 2, 1::int]" and low=1 and high=2
      and rnd="\<lambda>k. 1" and base=0 and compar=by_value, THEN mp]
  have h: "(\<forall>k. 0 \<le> (\<lambda>k. 1::int) k) \<and> (2::nat) + 1 < 2 ^ 32 \<and> (1::nat) < 2 \<and> 0 + 2 < length (arr (mem0 [0, 2, 1::int]))"
    by (simp add: mem0_def)
  have h1: "(1::nat) < 2" by simp
  have h2: "0 + 2 < length (arr (mem0 [0, 2, 1::int]))" by (simp add: mem0_def)
  show ?thesis
    by (intro conjI h1 h2 T[OF h])
qed

text \<open>
  C6.  The recursion of both drivers is well founded: the size of the range shrinks in
  every recursive call, for every comparator (a total preorder or not) and every stream of
  random values.  \<^verbatim>\<open>merge_sort_rec\<close> on a range inside the array returns, or an
  allocation fails and \<^verbatim>\<open>merge\<close> ends the process; it returns when the allocations
  succeed.  \<^verbatim>\<open>quick_sort_rec\<close> returns on every range inside the array of fewer than
  \<open>2^32\<close> elements (\<open>high + 1\<close> being a \<^verbatim>\<open>size_t\<close>), and so do the top-level calls.
  On a range of \<open>2^32\<close> elements the code does not do what the claim says: the pivot
  selector converts the length to \<^verbatim>\<open>int\<close>, \<^verbatim>\<open>(int)(high - low + 1) = 0\<close>, and the
  remainder \<^verbatim>\<open>rand() % 0\<close> is undefined, before any element has been touched.
\<close>

theorem drivers_terminate:
  "quick_sort_rec (\<lambda>k. 0) 0 0 (2 ^ 32 - 1) by_value (mem0 (replicate (2 ^ 32) 0)) = Undefined
   \<and> quick_sort (\<lambda>k. 0) (Some 0) (2 ^ 32) (Some by_value) (mem0 (replicate (2 ^ 32) 0)) = Undefined
   \<and> ((\<forall>k. 0 \<le> rnd k) \<and> high + 1 - low < 2 ^ 32 \<and> high + 1 < 2 ^ 64
        \<and> (low < high \<longrightarrow> base + high < length (arr s)) \<longrightarrow>
      (\<exists>s'. quick_sort_rec rnd base low high compar s = Return s'))
   \<and> (base + nitems \<le> length (arr s) \<longrightarrow>
      (\<exists>s'. merge_sort_rec alloc base nitems compar s = Return s'
           \<or> merge_sort_rec alloc base nitems compar s = Exit s'))
   \<and> (base + nitems \<le> length (arr s) \<and> (\<forall>k<nitems - 1. alloc (malloc_next s + k)) \<longrightarrow>
      (\<exists>s'. merge_sort_rec alloc base nitems compar s = Return s'))
   \<and> ((\<forall>k. 0 \<le> rnd k) \<and> nitems < 2 ^ 32 \<and> base + nitems \<le> length (arr s) \<longrightarrow>
      (\<exists>s'. quick_sort rnd (Some base) nitems (Some compar) s = Return s'))
   \<and> (base + nitems \<le> length (arr s) \<and> (\<forall>k<nitems - 1. alloc (malloc_next s + k)) \<longrightarrow>
      (\<exists>s'. merge_sort alloc (Some base) nitems (Some compar) s = Return s'))"
proof (intro conjI impI)
  have "(2::nat) ^ 32 - 1 - 0 + 1 = 2 ^ 32" by simp
  from quick_sort_rec_zero_length[OF this]
  show u: "quick_sort_rec (\<lambda>k. 0) 0 0 (2 ^ 32 - 1) by_value (mem0 (replicate (2 ^ 32) 0)) = Undefined" .
  then show "quick_sort (\<lambda>k. 0) (Some 0) (2 ^ 32) (Some by_value) (mem0 (replicate (2 ^ 32) 0)) = Undefined"
    using quick_sort_rec_zero_length[of "2 ^ 32 - 1" 0 "\<lambda>k. 0" 0 by_value
        "(mem0 (replicate (2 ^ 32) 0))\<lparr>rand_next := 0\<rparr>"]
    by (simp add: quick_sort_def)
next
  assume h: "(\<forall>k. 0 \<le> rnd k) \<and> high + 1 - low < 2 ^ 32 \<and> high + 1 < 2 ^ 64
      \<and> (low < high \<longrightarrow> base + high < length (arr s))"
  show "\<exists>s'. quick_sort_rec rnd base low high compar s = Return s'"
  proof (cases "low < high")
    case False
    then show ?thesis by (subst quick_sort_rec.simps) simp
  next
    case True
    define P where "P = take (base + low) (arr s)"
    define X where "X = take (high + 1 - low) (drop (base + low) (arr s))"
    define S where "S = drop (high + 1 - low) (drop (base + low) (arr s))"
    have "base + high < length (arr s)" using h True by simp
    then have "high + 1 - low \<le> length (arr s) - (base + low)" using True by linarith
    then have lP: "length P = base + low" and lX: "length X = high + 1 - low"
      using h True by (simp_all add: P_def X_def)
    have dec: "arr s = P @ X @ S" unfolding P_def X_def S_def by (rule frame_split)
    have r: "\<forall>k. 0 \<le> rnd k" and h64: "high + 1 < 2 ^ 64"
      and small: "\<not> 2 ^ 32 \<le> high + 1 - low" using h by simp_all
    from quick_sort_rec_cases[where rnd=rnd and compar=compar and s=s, OF r h64 dec lP lX] small
    show ?thesis by blast
  qed
next
  assume h: "base + nitems \<le> length (arr s)"
  define P where "P = take base (arr s)"
  define X where "X = take nitems (drop base (arr s))"
  define S where "S = drop nitems (drop base (arr s))"
  have "nitems \<le> length (arr s) - base" using h by linarith
  then have lP: "length P = base" and lX: "length X = nitems"
    using h by (simp_all add: P_def X_def)
  have dec: "arr s = P @ X @ S" unfolding P_def X_def S_def by (rule frame_split)
  note fr = merge_sort_rec_frame[where alloc=alloc and compar=compar, OF dec lP lX]
  show "\<exists>s'. merge_sort_rec alloc base nitems compar s = Return s'
           \<or> merge_sort_rec alloc base nitems compar s = Exit s'"
  proof (cases "\<forall>k<nitems - 1. alloc (malloc_next s + k)")
    case True
    then show ?thesis using fr by blast
  next
    case False
    then show ?thesis using fr by blast
  qed
next
  assume h: "base + nitems \<le> length (arr s) \<and> (\<forall>k<nitems - 1. alloc (malloc_next s + k))"
  define P where "P = take base (arr s)"
  define X where "X = take nitems (drop base (arr s))"
  define S where "S = drop nitems (drop base (arr s))"
  have "nitems \<le> length (arr s) - base" using h by linarith
  then have lP: "length P = base" and lX: "length X = nitems"
    using h by (simp_all add: P_def X_def)
  have dec: "arr s = P @ X @ S" unfolding P_def X_def S_def by (rule frame_split)
  from merge_sort_rec_frame[where alloc=alloc and compar=compar, OF dec lP lX] h
  show "\<exists>s'. merge_sort_rec alloc base nitems compar s = Return s'" by blast
next
  assume h: "(\<forall>k. 0 \<le> rnd k) \<and> nitems < 2 ^ 32 \<and> base + nitems \<le> length (arr s)"
  define P where "P = take base (arr s)"
  define X where "X = take nitems (drop base (arr s))"
  define S where "S = drop nitems (drop base (arr s))"
  have "nitems \<le> length (arr s) - base" using h by linarith
  then have lP: "length P = base" and lX: "length X = nitems"
    using h by (simp_all add: P_def X_def)
  have dec: "arr s = P @ X @ S" unfolding P_def X_def S_def by (rule frame_split)
  from quick_sort_frame[where rnd=rnd and compar=compar and s=s, OF _ _ dec lP lX] h
  show "\<exists>s'. quick_sort rnd (Some base) nitems (Some compar) s = Return s'" by blast
next
  assume h: "base + nitems \<le> length (arr s) \<and> (\<forall>k<nitems - 1. alloc (malloc_next s + k))"
  define P where "P = take base (arr s)"
  define X where "X = take nitems (drop base (arr s))"
  define S where "S = drop nitems (drop base (arr s))"
  have "nitems \<le> length (arr s) - base" using h by linarith
  then have lP: "length P = base" and lX: "length X = nitems"
    using h by (simp_all add: P_def X_def)
  have dec: "arr s = P @ X @ S" unfolding P_def X_def S_def by (rule frame_split)
  from merge_sort_frame[where alloc=alloc and compar=compar, OF dec lP lX] h
  show "\<exists>s'. merge_sort alloc (Some base) nitems (Some compar) s = Return s'" by blast
qed

theorem drivers_terminate_witness:
  "(\<exists>s'. quick_sort_rec (\<lambda>k. 7) 0 1 3 (\<lambda>x y. - 1) (mem0 [5, 1, 4, 3::int]) = Return s')
   \<and> (\<exists>s'. merge_sort_rec (\<lambda>k. True) 0 4 (\<lambda>x y. - 1) (mem0 [5, 1, 4, 3::int]) = Return s'
           \<or> merge_sort_rec (\<lambda>k. True) 0 4 (\<lambda>x y. - 1) (mem0 [5, 1, 4, 3::int]) = Exit s')
   \<and> (\<exists>s'. merge_sort_rec (\<lambda>k. True) 0 4 (\<lambda>x y. - 1) (mem0 [5, 1, 4, 3::int]) = Return s')
   \<and> (\<exists>s'. quick_sort (\<lambda>k. 7) (Some 0) 4 (Some (\<lambda>x y. - 1)) (mem0 [5, 1, 4, 3::int]) = Return s')
   \<and> (\<exists>s'. merge_sort (\<lambda>k. True) (Some 0) 4 (Some (\<lambda>x y. - 1)) (mem0 [5, 1, 4, 3::int]) = Return s')"
proof -
  note T = drivers_terminate[where s="mem0 [5, 1, 4, 3::int]"
      and low=1 and high=3 and rnd="\<lambda>k. 7" and base=0 and compar="\<lambda>x y. - 1"
      and nitems=4 and alloc="\<lambda>k. True", THEN conjunct2, THEN conjunct2]
  have c1: "(\<exists>s'. quick_sort_rec (\<lambda>k. 7) 0 1 3 (\<lambda>x y. - 1) (mem0 [5, 1, 4, 3::int]) = Return s')"
    by (rule T[THEN conjunct1, THEN mp]) (simp add: mem0_def)
  have c2: "(\<exists>s'. merge_sort_rec (\<lambda>k. True) 0 4 (\<lambda>x y. - 1) (mem0 [5, 1, 4, 3::int]) = Return s'
           \<or> merge_sort_rec (\<lambda>k. True) 0 4 (\<lambda>x y. - 1) (mem0 [5, 1, 4, 3::int]) = Exit s')"
    by (rule T[THEN conjunct2, THEN conjunct1, THEN mp]) (simp add: mem0_def)
  have c3: "(\<exists>s'. merge_sort_rec (\<lambda>k. True) 0 4 (\<lambda>x y. - 1) (mem0 [5, 1, 4, 3::int]) = Return s')"
    by (rule T[THEN conjunct2, THEN conjunct2, THEN conjunct1, THEN mp]) (simp add: mem0_def)
  have c4: "(\<exists>s'. quick_sort (\<lambda>k. 7) (Some 0) 4 (Some (\<lambda>x y. - 1)) (mem0 [5, 1, 4, 3::int]) = Return s')"
    by (rule T[THEN conjunct2, THEN conjunct2, THEN conjunct2, THEN conjunct1, THEN mp]) (simp add: mem0_def)
  have c5: "(\<exists>s'. merge_sort (\<lambda>k. True) (Some 0) 4 (Some (\<lambda>x y. - 1)) (mem0 [5, 1, 4, 3::int]) = Return s')"
    by (rule T[THEN conjunct2, THEN conjunct2, THEN conjunct2, THEN conjunct2, THEN mp]) (simp add: mem0_def)
  show ?thesis
    by (intro conjI c1 c2 c3 c4 c5)
qed

text \<open>
  C7.  When the allocation of the scratch buffer fails, \<^verbatim>\<open>merge\<close> prints its diagnostic
  and ends the process with \<^verbatim>\<open>exit(EXIT_FAILURE)\<close> before it has read or written the
  array: the array at exit is the array at entry.  When any allocation that a top-level
  \<^verbatim>\<open>merge_sort\<close> call needs fails, the call ends the same way, the diagnostic is the last
  line on \<^verbatim>\<open>stderr\<close>, and the range of the array holds a permutation of what it held at
  entry (the merges completed so far), the rest of the array being untouched.
\<close>

theorem allocation_failure_is_surfaced:
  "(\<not> alloc (malloc_next s) \<longrightarrow>
      merge alloc base nitems middle_i compar s =
        Exit (s\<lparr>malloc_next := malloc_next s + 1,
                stderr := stderr s @ [''merge: memory allocation failed'' @ [CHR 0x0A]]\<rparr>))
   \<and> (arr s = P @ X @ S \<and> length P = base \<and> length X = nitems
        \<and> \<not> (\<forall>k<nitems - 1. alloc (malloc_next s + k)) \<longrightarrow>
      (\<exists>s' X'. merge_sort alloc (Some base) nitems (Some compar) s = Exit s'
          \<and> arr s' = P @ X' @ S \<and> mset X' = mset X
          \<and> stderr s' = stderr s @ [''merge: memory allocation failed'' @ [CHR 0x0A]]))"
proof (intro conjI impI)
  assume "\<not> alloc (malloc_next s)"
  from merge_exit[where alloc=alloc and s=s, OF this]
  show "merge alloc base nitems middle_i compar s =
        Exit (s\<lparr>malloc_next := malloc_next s + 1,
                stderr := stderr s @ [''merge: memory allocation failed'' @ [CHR 0x0A]]\<rparr>)" .
next
  assume h: "arr s = P @ X @ S \<and> length P = base \<and> length X = nitems
        \<and> \<not> (\<forall>k<nitems - 1. alloc (malloc_next s + k))"
  then have a: "arr s = P @ X @ S" and lP: "length P = base" and lX: "length X = nitems"
    and no: "\<not> (\<forall>k<nitems - 1. alloc (malloc_next s + k))" by simp_all
  from merge_sort_frame[where alloc=alloc and compar=compar, OF a lP lX, THEN conjunct2, THEN mp, OF no]
  show "\<exists>s' X'. merge_sort alloc (Some base) nitems (Some compar) s = Exit s'
          \<and> arr s' = P @ X' @ S \<and> mset X' = mset X
          \<and> stderr s' = stderr s @ [''merge: memory allocation failed'' @ [CHR 0x0A]]"
    by blast
qed

theorem allocation_failure_is_surfaced_witness:
  "merge (\<lambda>k. k = 0) 2 2 1 by_value ((mem0 [1, 5, 4, 3::int])\<lparr>malloc_next := 1\<rparr>) =
        Exit ((mem0 [1, 5, 4, 3::int])\<lparr>malloc_next := 1\<rparr>
               \<lparr>malloc_next := malloc_next ((mem0 [1, 5, 4, 3::int])\<lparr>malloc_next := 1\<rparr>) + 1,
                stderr := stderr ((mem0 [1, 5, 4, 3::int])\<lparr>malloc_next := 1\<rparr>) @
                   [''merge: memory allocation failed'' @ [CHR 0x0A]]\<rparr>)
   \<and> merge_sort (\<lambda>k. k = 0) (Some 0) 4 (Some by_value) (mem0 [5, 1, 4, 3::int]) =
        Exit ((mem0 [1, 5, 4, 3::int])\<lparr>malloc_next := 2, compar_calls := 1,
                stderr := [''merge: memory allocation failed'' @ [CHR 0x0A]]\<rparr>)
   \<and> (\<exists>s' X'. merge_sort (\<lambda>k. k = 0) (Some 0) 4 (Some by_value) (mem0 [5, 1, 4, 3::int]) = Exit s'
          \<and> arr s' = [] @ X' @ [] \<and> mset X' = mset [5, 1, 4, 3::int]
          \<and> stderr s' = stderr (mem0 [5, 1, 4, 3::int]) @
                [''merge: memory allocation failed'' @ [CHR 0x0A]])"
proof -
  note T1 = allocation_failure_is_surfaced[where alloc="\<lambda>k. k = 0"
      and s="(mem0 [1, 5, 4, 3::int])\<lparr>malloc_next := 1\<rparr>" and base=2 and nitems=2
      and middle_i=1 and compar=by_value, THEN conjunct1, THEN mp]
  note T2 = allocation_failure_is_surfaced[where alloc="\<lambda>k. k = 0"
      and s="mem0 [5, 1, 4, 3::int]" and base=0 and nitems=4 and compar=by_value
      and P="[]" and X="[5, 1, 4, 3]" and S="[]", THEN conjunct2, THEN mp]
  have h1: "\<not> (\<lambda>k. k = 0) (malloc_next ((mem0 [1, 5, 4, 3::int])\<lparr>malloc_next := 1\<rparr>))"
    by simp
  have no: "\<not> (\<forall>k<4 - 1. (\<lambda>k. k = (0::nat)) (malloc_next (mem0 [5, 1, 4, 3::int]) + k))"
  proof
    assume "\<forall>k<4 - 1. (\<lambda>k. k = (0::nat)) (malloc_next (mem0 [5, 1, 4, 3::int]) + k)"
    then have "(1::nat) < 4 - 1 \<longrightarrow> (\<lambda>k. k = (0::nat)) (malloc_next (mem0 [5, 1, 4, 3::int]) + 1)"
      by (rule spec)
    then show False by simp
  qed
  have h2: "arr (mem0 [5, 1, 4, 3::int]) = [] @ [5, 1, 4, 3] @ [] \<and> length ([]::int list) = 0
      \<and> length [5, 1, 4, 3::int] = 4
      \<and> \<not> (\<forall>k<4 - 1. (\<lambda>k. k = (0::nat)) (malloc_next (mem0 [5, 1, 4, 3::int]) + k))"
    by (intro conjI no) (simp_all add: mem0_def)
  have run: "merge_sort (\<lambda>k. k = 0) (Some 0) 4 (Some by_value) (mem0 [5, 1, 4, 3::int]) =
        Exit ((mem0 [1, 5, 4, 3::int])\<lparr>malloc_next := 2, compar_calls := 1,
                stderr := [''merge: memory allocation failed'' @ [CHR 0x0A]]\<rparr>)"
    by code_simp
  show ?thesis
    by (intro conjI T1[OF h1] run T2[OF h2])
qed

text \<open>
  C8.  As stated the claim fails when distinct references compare equal: quick sort is not
  stable, and the order in which tied references come out depends on the pivots.  What
  holds, for a total preorder, \<open>N < 2^32\<close> and non-negative \<^verbatim>\<open>rand()\<close> values: two runs of
  \<^verbatim>\<open>quick_sort\<close> on two arrangements \<open>X\<close> and \<open>Y\<close> of the same multiset of references,
  with any two random streams, both return, and the two sorted ranges agree index by index
  up to the comparator (the references at the same index compare equal); they are the same
  sequence when the comparator returns zero only for identical references.
\<close>

theorem quick_sort_outcome_up_to_ties:
  "valid_comparator compar \<and> (\<forall>k. 0 \<le> rnd k) \<and> (\<forall>k. 0 \<le> rnd' k) \<and> nitems < 2 ^ 32
     \<and> arr s = P @ X @ S \<and> length P = base \<and> length X = nitems
     \<and> arr t = P @ Y @ S \<and> mset Y = mset X \<longrightarrow>
   (\<exists>s' t' X' Y'.
        quick_sort rnd (Some base) nitems (Some compar) s = Return s'
      \<and> quick_sort rnd' (Some base) nitems (Some compar) t = Return t'
      \<and> arr s' = P @ X' @ S \<and> arr t' = P @ Y' @ S
      \<and> list_all2 (\<lambda>x y. compar x y = 0) X' Y'
      \<and> ((\<forall>x\<in>set X. \<forall>y\<in>set X. compar x y = 0 \<longrightarrow> x = y) \<longrightarrow> arr s' = arr t'))"
proof
  assume h: "valid_comparator compar \<and> (\<forall>k. 0 \<le> rnd k) \<and> (\<forall>k. 0 \<le> rnd' k) \<and> nitems < 2 ^ 32
     \<and> arr s = P @ X @ S \<and> length P = base \<and> length X = nitems
     \<and> arr t = P @ Y @ S \<and> mset Y = mset X"
  then have v: "valid_comparator compar" and r1: "\<forall>k. 0 \<le> rnd k" and r2: "\<forall>k. 0 \<le> rnd' k"
    and n: "nitems < 2 ^ 32" and a: "arr s = P @ X @ S" and lP: "length P = base"
    and lX: "length X = nitems" and b: "arr t = P @ Y @ S" and m: "mset Y = mset X"
    by simp_all
  have lY: "length Y = nitems" using m lX by (metis size_mset)
  from quick_sort_frame[where compar=compar, OF r1 n a lP lX] v
  obtain s' X' where e1: "quick_sort rnd (Some base) nitems (Some compar) s = Return s'"
    and a1: "arr s' = P @ X' @ S" and m1: "mset X' = mset X"
    and so1: "sorted_wrt (le compar) X'" by blast
  from quick_sort_frame[where compar=compar, OF r2 n b lP lY] v
  obtain t' Y' where e2: "quick_sort rnd' (Some base) nitems (Some compar) t = Return t'"
    and a2: "arr t' = P @ Y' @ S" and m2: "mset Y' = mset Y"
    and so2: "sorted_wrt (le compar) Y'" by blast
  have mm: "mset X' = mset Y'" using m m1 m2 by simp
  have ag: "list_all2 (\<lambda>x y. compar x y = 0) X' Y'"
    by (rule sorted_arrangements_agree[OF v so1 so2 mm])
  have same: "arr s' = arr t'" if anti: "\<forall>x\<in>set X. \<forall>y\<in>set X. compar x y = 0 \<longrightarrow> x = y"
  proof -
    have "set X' = set X" using m1 by (rule mset_eq_setD)
    moreover have "set Y' = set X" using m2 m by (metis mset_eq_setD)
    ultimately have "X' = Y'" using sorted_arrangements_equal[OF ag _ _ anti] by simp
    then show ?thesis using a1 a2 by simp
  qed
  show "\<exists>s' t' X' Y'.
        quick_sort rnd (Some base) nitems (Some compar) s = Return s'
      \<and> quick_sort rnd' (Some base) nitems (Some compar) t = Return t'
      \<and> arr s' = P @ X' @ S \<and> arr t' = P @ Y' @ S
      \<and> list_all2 (\<lambda>x y. compar x y = 0) X' Y'
      \<and> ((\<forall>x\<in>set X. \<forall>y\<in>set X. compar x y = 0 \<longrightarrow> x = y) \<longrightarrow> arr s' = arr t')"
    using e1 e2 a1 a2 ag same
    by - (rule exI[of _ s'], rule exI[of _ t'], rule exI[of _ X'], rule exI[of _ Y'], simp)
qed

theorem quick_sort_outcome_up_to_ties_counterexample:
  "valid_comparator by_key
   \<and> quick_sort (\<lambda>k. 0) (Some 0) 2 (Some by_key) (mem0 [(1, 10), (1, 20)]) =
       Return ((mem0 [(1, 10), (1, 20)])\<lparr>rand_next := 1, compar_calls := 1,
                 rec_calls := [(0, 1), (1, 1)]\<rparr>)
   \<and> quick_sort (\<lambda>k. 1) (Some 0) 2 (Some by_key) (mem0 [(1, 10), (1, 20)]) =
       Return ((mem0 [(1, 20), (1, 10)])\<lparr>rand_next := 1, compar_calls := 1,
                 rec_calls := [(0, 1), (1, 1)]\<rparr>)
   \<and> [(1, 10), (1, 20)] \<noteq> [(1, 20), (1::int, 10::int)]"
proof (intro conjI)
  show "valid_comparator by_key" by (rule valid_by_key)
  show "quick_sort (\<lambda>k. 0) (Some 0) 2 (Some by_key) (mem0 [(1, 10), (1, 20)]) =
       Return ((mem0 [(1, 10), (1, 20)])\<lparr>rand_next := 1, compar_calls := 1,
                 rec_calls := [(0, 1), (1, 1)]\<rparr>)"
    by code_simp
  show "quick_sort (\<lambda>k. 1) (Some 0) 2 (Some by_key) (mem0 [(1, 10), (1, 20)]) =
       Return ((mem0 [(1, 20), (1, 10)])\<lparr>rand_next := 1, compar_calls := 1,
                 rec_calls := [(0, 1), (1, 1)]\<rparr>)"
    by code_simp
  show "[(1, 10), (1, 20)] \<noteq> [(1, 20), (1::int, 10::int)]" by simp
qed

theorem quick_sort_outcome_up_to_ties_witness:
  "valid_comparator by_key
   \<and> (\<exists>s' t' X' Y'.
        quick_sort (\<lambda>k. 0) (Some 0) 4 (Some by_key) (mem0 [(2::int, 0::int), (1, 1), (2, 2), (1, 3)]) = Return s'
      \<and> quick_sort (\<lambda>k. 1) (Some 0) 4 (Some by_key) (mem0 [(1::int, 3::int), (2, 2), (1, 1), (2, 0)]) = Return t'
      \<and> arr s' = [] @ X' @ [] \<and> arr t' = [] @ Y' @ []
      \<and> list_all2 (\<lambda>x y. by_key x y = 0) X' Y'
      \<and> ((\<forall>x\<in>set [(2::int, 0::int), (1, 1), (2, 2), (1, 3)].
            \<forall>y\<in>set [(2::int, 0::int), (1, 1), (2, 2), (1, 3)]. by_key x y = 0 \<longrightarrow> x = y)
          \<longrightarrow> arr s' = arr t'))"
proof -
  note T = quick_sort_outcome_up_to_ties[where compar=by_key and rnd="\<lambda>k. 0" and rnd'="\<lambda>k. 1"
      and nitems=4 and s="mem0 [(2::int, 0::int), (1, 1), (2, 2), (1, 3)]"
      and t="mem0 [(1::int, 3::int), (2, 2), (1, 1), (2, 0)]" and P="[]" and S="[]" and base=0
      and X="[(2::int, 0::int), (1, 1), (2, 2), (1, 3)]"
      and Y="[(1::int, 3::int), (2, 2), (1, 1), (2, 0)]", THEN mp]
  have h: "valid_comparator by_key \<and> (\<forall>k. 0 \<le> (\<lambda>k. 0::int) k) \<and> (\<forall>k. 0 \<le> (\<lambda>k. 1::int) k)
     \<and> (4::nat) < 2 ^ 32
     \<and> arr (mem0 [(2::int, 0::int), (1, 1), (2, 2), (1, 3)]) =
         [] @ [(2::int, 0::int), (1, 1), (2, 2), (1, 3)] @ []
     \<and> length ([]::(int \<times> int) list) = 0
     \<and> length [(2::int, 0::int), (1, 1), (2, 2), (1, 3)] = 4
     \<and> arr (mem0 [(1::int, 3::int), (2, 2), (1, 1), (2, 0)]) =
         [] @ [(1::int, 3::int), (2, 2), (1, 1), (2, 0)] @ []
     \<and> mset [(1::int, 3::int), (2, 2), (1, 1), (2, 0)] = mset [(2::int, 0::int), (1, 1), (2, 2), (1, 3)]"
    by (simp add: valid_by_key mem0_def)
  show ?thesis
    by (intro conjI valid_by_key T[OF h])
qed

text \<open>
  C9.  Every operation of the engine leaves the multiset of references in the array as it
  was, on every input: whenever \<^verbatim>\<open>swap\<close>, \<^verbatim>\<open>choose_random_pivot\<close>, \<^verbatim>\<open>partition\<close> or
  \<^verbatim>\<open>merge\<close> returns (or \<^verbatim>\<open>merge\<close> ends the process), the array holds the references it
  held before; \<^verbatim>\<open>merge\<close> does so whether or not its two sub-ranges are sorted.  The same
  therefore holds for the recursive drivers and the top-level calls, at their return and at
  an exit on allocation failure.  On a range inside the array the four operations do
  return, and they permute the references within the range they work on.
\<close>

theorem engine_preserves_references:
  "(swap a b s = Return s' \<longrightarrow>
      mset (arr s') = mset (arr s))
   \<and> (choose_random_pivot rnd base low high s = Return s' \<longrightarrow>
      mset (arr s') = mset (arr s))
   \<and> (partition_c base low high compar s = Return (s', i) \<longrightarrow>
      mset (arr s') = mset (arr s))
   \<and> (merge alloc base nitems middle_i compar s = Return s' \<or> merge alloc base nitems middle_i compar s = Exit s' \<longrightarrow>
      mset (arr s') = mset (arr s))
   \<and> (quick_sort_rec rnd base low high compar s = Return s' \<longrightarrow>
      mset (arr s') = mset (arr s))
   \<and> (quick_sort rnd bp nitems cp s = Return s' \<longrightarrow>
      mset (arr s') = mset (arr s))
   \<and> (merge_sort_rec alloc base nitems compar s = Return s' \<or> merge_sort_rec alloc base nitems compar s = Exit s' \<longrightarrow>
      mset (arr s') = mset (arr s))
   \<and> (merge_sort alloc bp nitems cp s = Return s' \<or> merge_sort alloc bp nitems cp s = Exit s' \<longrightarrow>
      mset (arr s') = mset (arr s))
   \<and> (a < length (arr s) \<and> b < length (arr s) \<longrightarrow>
      (\<exists>s'. swap a b s = Return s'))
   \<and> (low \<le> high \<and> high + 1 < 2 ^ 32 \<and> 0 \<le> rnd (rand_next s) \<and> base + high < length (arr s) \<longrightarrow>
      (\<exists>s'. choose_random_pivot rnd base low high s = Return s'
          \<and> mset (take (high + 1 - low) (drop (base + low) (arr s'))) =
              mset (take (high + 1 - low) (drop (base + low) (arr s)))))
   \<and> (low \<le> high \<and> base + high < length (arr s) \<longrightarrow>
      (\<exists>s' i. partition_c base low high compar s = Return (s', i)
          \<and> mset (take (high + 1 - low) (drop (base + low) (arr s'))) =
              mset (take (high + 1 - low) (drop (base + low) (arr s)))))
   \<and> (middle_i \<le> nitems \<and> base + nitems \<le> length (arr s) \<and> alloc (malloc_next s) \<longrightarrow>
      (\<exists>s'. merge alloc base nitems middle_i compar s = Return s'
          \<and> mset (take nitems (drop base (arr s'))) = mset (take nitems (drop base (arr s)))))"
proof (intro conjI impI)
  assume "swap a b s = Return s'"
  then show "mset (arr s') = mset (arr s)" by (rule swap_mset)
next
  assume "choose_random_pivot rnd base low high s = Return s'"
  then show "mset (arr s') = mset (arr s)" by (rule choose_random_pivot_mset)
next
  assume "partition_c base low high compar s = Return (s', i)"
  then show "mset (arr s') = mset (arr s)" by (rule partition_mset)
next
  assume "merge alloc base nitems middle_i compar s = Return s'
          \<or> merge alloc base nitems middle_i compar s = Exit s'"
  then show "mset (arr s') = mset (arr s)"
    using merge_mset[of alloc base nitems middle_i compar s s']
      merge_Exit_arr[of alloc base nitems middle_i compar s s'] by auto
next
  assume "quick_sort_rec rnd base low high compar s = Return s'"
  then show "mset (arr s') = mset (arr s)" by (rule quick_sort_rec_mset)
next
  assume "quick_sort rnd bp nitems cp s = Return s'"
  then show "mset (arr s') = mset (arr s)" by (rule quick_sort_mset)
next
  assume "merge_sort_rec alloc base nitems compar s = Return s'
          \<or> merge_sort_rec alloc base nitems compar s = Exit s'"
  then show "mset (arr s') = mset (arr s)" by (rule merge_sort_rec_mset)
next
  assume "merge_sort alloc bp nitems cp s = Return s'
          \<or> merge_sort alloc bp nitems cp s = Exit s'"
  then show "mset (arr s') = mset (arr s)" by (rule merge_sort_mset)
next
  assume "a < length (arr s) \<and> b < length (arr s)"
  then show "\<exists>s'. swap a b s = Return s'" by (simp add: swap_Return)
next
  assume h: "low \<le> high \<and> high + 1 < 2 ^ 32 \<and> 0 \<le> rnd (rand_next s) \<and> base + high < length (arr s)"
  define P where "P = take (base + low) (arr s)"
  define X where "X = take (high + 1 - low) (drop (base + low) (arr s))"
  define S where "S = drop (high + 1 - low) (drop (base + low) (arr s))"
  have "high + 1 - low \<le> length (arr s) - (base + low)" using h by linarith
  then have lP: "length P = base + low" and lX: "length X = high + 1 - low"
    using h by (simp_all add: P_def X_def)
  have dec: "arr s = P @ X @ S" unfolding P_def X_def S_def by (rule frame_split)
  from choose_random_pivot_frame[where rnd=rnd and s=s, OF _ _ _ dec lP lX] h
  obtain X' where e: "choose_random_pivot rnd base low high s =
             Return (s\<lparr>arr := P @ X' @ S, rand_next := rand_next s + 1\<rparr>)"
    and l: "length X' = length X" and m: "mset X' = mset X" by blast
  have "take (high + 1 - low) (drop (base + low) (P @ X' @ S)) = X'"
    using frame_range[of "P @ X' @ S" P X' S] l lP lX by simp
  then show "\<exists>s'. choose_random_pivot rnd base low high s = Return s'
          \<and> mset (take (high + 1 - low) (drop (base + low) (arr s'))) =
              mset (take (high + 1 - low) (drop (base + low) (arr s)))"
    using e m unfolding X_def by simp
next
  assume h: "low \<le> high \<and> base + high < length (arr s)"
  from partition_spec[where compar=compar and s=s and base=base and low=low and high=high] h
  obtain xs i where
    eq: "partition_c base low high compar s =
           Return (s\<lparr>arr := xs, compar_calls := compar_calls s + (high - low)\<rparr>, i)"
    and l: "length xs = length (arr s)" and m: "mset xs = mset (arr s)"
    and u: "\<forall>k. k < base + low \<or> base + high < k \<longrightarrow> xs ! k = arr s ! k"
    by blast
  have "\<forall>k. k < base + low \<or> base + low + (high + 1 - low) \<le> k \<longrightarrow> xs ! k = arr s ! k"
    using u h by auto
  from range_mset_unchanged[OF l m _ this] h
  have "mset (take (high + 1 - low) (drop (base + low) xs)) =
        mset (take (high + 1 - low) (drop (base + low) (arr s)))" by simp
  then show "\<exists>s' i. partition_c base low high compar s = Return (s', i)
          \<and> mset (take (high + 1 - low) (drop (base + low) (arr s'))) =
              mset (take (high + 1 - low) (drop (base + low) (arr s)))"
    using eq by simp
next
  assume h: "middle_i \<le> nitems \<and> base + nitems \<le> length (arr s) \<and> alloc (malloc_next s)"
  then have "middle_i \<le> nitems" "base + nitems \<le> length (arr s)" "alloc (malloc_next s)"
    by simp_all
  from merge_permutes[where alloc=alloc and s=s and compar=compar, OF this]
  show "\<exists>s'. merge alloc base nitems middle_i compar s = Return s'
          \<and> mset (take nitems (drop base (arr s'))) = mset (take nitems (drop base (arr s)))"
    by blast
qed

theorem engine_preserves_references_witness:
  "(swap 0 1 (mem0 [5, 1, 4, 3::int]) = Return (mem0 [1, 5, 4, 3::int]))
   \<and> (mset (arr (mem0 [1, 5, 4, 3::int])) = mset (arr (mem0 [5, 1, 4, 3::int])))
   \<and> (choose_random_pivot (\<lambda>k. 7) 0 1 3 (mem0 [5, 1, 4, 3::int]) = Return ((mem0 [5, 1, 3, 4::int])\<lparr>rand_next := 1\<rparr>))
   \<and> (mset (arr ((mem0 [5, 1, 3, 4::int])\<lparr>rand_next := 1\<rparr>)) = mset (arr (mem0 [5, 1, 4, 3::int])))
   \<and> (partition_c 0 1 3 by_value (mem0 [5, 1, 4, 3::int]) = Return (((mem0 [5, 1, 3, 4::int])\<lparr>compar_calls := 2\<rparr>), 2))
   \<and> (mset (arr ((mem0 [5, 1, 3, 4::int])\<lparr>compar_calls := 2\<rparr>)) = mset (arr (mem0 [5, 1, 4, 3::int])))
   \<and> (merge (\<lambda>k. True) 0 4 2 by_value (mem0 [5, 1, 4, 3::int]) = Return ((mem0 [4, 3, 5, 1::int])\<lparr>malloc_next := 1, compar_calls := 2\<rparr>) \<or> merge (\<lambda>k. True) 0 4 2 by_value (mem0 [5, 1, 4, 3::int]) = Exit ((mem0 [4, 3, 5, 1::int])\<lparr>malloc_next := 1, compar_calls := 2\<rparr>))
   \<and> (mset (arr ((mem0 [4, 3, 5, 1::int])\<lparr>malloc_next := 1, compar_calls := 2\<rparr>)) = mset (arr (mem0 [5, 1, 4, 3::int])))
   \<and> (quick_sort_rec (\<lambda>k. 7) 0 1 3 by_value (mem0 [5, 1, 4, 3::int]) = Return ((mem0 [5, 1, 3, 4::int])\<lparr>rand_next := 2, compar_calls := 3, rec_calls := [(1, 3), (1, 2), (1, 1), (3, 2), (4, 3)]\<rparr>))
   \<and> (mset (arr ((mem0 [5, 1, 3, 4::int])\<lparr>rand_next := 2, compar_calls := 3, rec_calls := [(1, 3), (1, 2), (1, 1), (3, 2), (4, 3)]\<rparr>)) = mset (arr (mem0 [5, 1, 4, 3::int])))
   \<and> (quick_sort (\<lambda>k. 7) (Some 0) 4 (Some by_value) (mem0 [5, 1, 4, 3::int]) = Return ((mem0 [1, 3, 4, 5::int])\<lparr>rand_next := 2, compar_calls := 4, rec_calls := [(0, 3), (0, 0), (2, 3), (2, 2), (4, 3)]\<rparr>))
   \<and> (mset (arr ((mem0 [1, 3, 4, 5::int])\<lparr>rand_next := 2, compar_calls := 4, rec_calls := [(0, 3), (0, 0), (2, 3), (2, 2), (4, 3)]\<rparr>)) = mset (arr (mem0 [5, 1, 4, 3::int])))
   \<and> (merge_sort_rec (\<lambda>k. True) 0 4 by_value (mem0 [5, 1, 4, 3::int]) = Return ((mem0 [1, 3, 4, 5::int])\<lparr>malloc_next := 3, compar_calls := 5\<rparr>) \<or> merge_sort_rec (\<lambda>k. True) 0 4 by_value (mem0 [5, 1, 4, 3::int]) = Exit ((mem0 [1, 3, 4, 5::int])\<lparr>malloc_next := 3, compar_calls := 5\<rparr>))
   \<and> (mset (arr ((mem0 [1, 3, 4, 5::int])\<lparr>malloc_next := 3, compar_calls := 5\<rparr>)) = mset (arr (mem0 [5, 1, 4, 3::int])))
   \<and> (merge_sort (\<lambda>k. k = 0) (Some 0) 4 (Some by_value) (mem0 [5, 1, 4, 3::int]) = Return ((mem0 [1, 5, 4, 3::int])\<lparr>malloc_next := 2, compar_calls := 1, stderr := [''merge: memory allocation failed'' @ [CHR 0x0A]]\<rparr>) \<or> merge_sort (\<lambda>k. k = 0) (Some 0) 4 (Some by_value) (mem0 [5, 1, 4, 3::int]) = Exit ((mem0 [1, 5, 4, 3::int])\<lparr>malloc_next := 2, compar_calls := 1, stderr := [''merge: memory allocation failed'' @ [CHR 0x0A]]\<rparr>))
   \<and> (mset (arr ((mem0 [1, 5, 4, 3::int])\<lparr>malloc_next := 2, compar_calls := 1, stderr := [''merge: memory allocation failed'' @ [CHR 0x0A]]\<rparr>)) = mset (arr (mem0 [5, 1, 4, 3::int])))
   \<and> ((\<exists>s'. swap 0 1 (mem0 [5, 1, 4, 3::int]) = Return s'))
   \<and> ((\<exists>s'. choose_random_pivot (\<lambda>k. 7) 0 1 3 (mem0 [5, 1, 4, 3::int]) = Return s'
          \<and> mset (take (3 + 1 - 1) (drop (0 + 1) (arr s'))) =
              mset (take (3 + 1 - 1) (drop (0 + 1) (arr (mem0 [5, 1, 4, 3::int]))))))
   \<and> ((\<exists>s' i. partition_c 0 1 3 by_value (mem0 [5, 1, 4, 3::int]) = Return (s', i)
          \<and> mset (take (3 + 1 - 1) (drop (0 + 1) (arr s'))) =
              mset (take (3 + 1 - 1) (drop (0 + 1) (arr (mem0 [5, 1, 4, 3::int]))))))
   \<and> ((\<exists>s'. merge (\<lambda>k. True) 0 4 2 by_value (mem0 [5, 1, 4, 3::int]) = Return s'
          \<and> mset (take 4 (drop 0 (arr s'))) = mset (take 4 (drop 0 (arr (mem0 [5, 1, 4, 3::int]))))))"
proof -
  have h1: "swap 0 1 (mem0 [5, 1, 4, 3::int]) = Return (mem0 [1, 5, 4, 3::int])"
    by code_simp
  have c1: "mset (arr (mem0 [1, 5, 4, 3::int])) = mset (arr (mem0 [5, 1, 4, 3::int]))"
    by (rule engine_preserves_references[where a="0" and b="1" and s="(mem0 [5, 1, 4, 3::int])" and low="1" and high="3" and rnd="(\<lambda>k. 7)" and base="0" and compar="by_value" and middle_i="2" and nitems="4" and alloc="(\<lambda>k. True)" and bp="(Some 0)" and cp="(Some by_value)" and s'="(mem0 [1, 5, 4, 3::int])",
          THEN conjunct1, THEN mp, OF h1])
  have h2: "choose_random_pivot (\<lambda>k. 7) 0 1 3 (mem0 [5, 1, 4, 3::int]) = Return ((mem0 [5, 1, 3, 4::int])\<lparr>rand_next := 1\<rparr>)"
    by code_simp
  have c2: "mset (arr ((mem0 [5, 1, 3, 4::int])\<lparr>rand_next := 1\<rparr>)) = mset (arr (mem0 [5, 1, 4, 3::int]))"
    by (rule engine_preserves_references[where a="0" and b="1" and s="(mem0 [5, 1, 4, 3::int])" and low="1" and high="3" and rnd="(\<lambda>k. 7)" and base="0" and compar="by_value" and middle_i="2" and nitems="4" and alloc="(\<lambda>k. True)" and bp="(Some 0)" and cp="(Some by_value)" and s'="((mem0 [5, 1, 3, 4::int])\<lparr>rand_next := 1\<rparr>)",
          THEN conjunct2, THEN conjunct1, THEN mp, OF h2])
  have h3: "partition_c 0 1 3 by_value (mem0 [5, 1, 4, 3::int]) = Return (((mem0 [5, 1, 3, 4::int])\<lparr>compar_calls := 2\<rparr>), 2)"
    by code_simp
  have c3: "mset (arr ((mem0 [5, 1, 3, 4::int])\<lparr>compar_calls := 2\<rparr>)) = mset (arr (mem0 [5, 1, 4, 3::int]))"
    by (rule engine_preserves_references[where a="0" and b="1" and s="(mem0 [5, 1, 4, 3::int])" and low="1" and high="3" and rnd="(\<lambda>k. 7)" and base="0" and compar="by_value" and middle_i="2" and nitems="4" and alloc="(\<lambda>k. True)" and bp="(Some 0)" and cp="(Some by_value)" and s'="((mem0 [5, 1, 3, 4::int])\<lparr>compar_calls := 2\<rparr>)" and i="2",
          THEN conjunct2, THEN conjunct2, THEN conjunct1, THEN mp, OF h3])
  have h4: "merge (\<lambda>k. True) 0 4 2 by_value (mem0 [5, 1, 4, 3::int]) = Return ((mem0 [4, 3, 5, 1::int])\<lparr>malloc_next := 1, compar_calls := 2\<rparr>) \<or> merge (\<lambda>k. True) 0 4 2 by_value (mem0 [5, 1, 4, 3::int]) = Exit ((mem0 [4, 3, 5, 1::int])\<lparr>malloc_next := 1, compar_calls := 2\<rparr>)"
    by code_simp
  have c4: "mset (arr ((mem0 [4, 3, 5, 1::int])\<lparr>malloc_next := 1, compar_calls := 2\<rparr>)) = mset (arr (mem0 [5, 1, 4, 3::int]))"
    by (rule engine_preserves_references[where a="0" and b="1" and s="(mem0 [5, 1, 4, 3::int])" and low="1" and high="3" and rnd="(\<lambda>k. 7)" and base="0" and compar="by_value" and middle_i="2" and nitems="4" and alloc="(\<lambda>k. True)" and bp="(Some 0)" and cp="(Some by_value)" and s'="((mem0 [4, 3, 5, 1::int])\<lparr>malloc_next := 1, compar_calls := 2\<rparr>)",
          THEN conjunct2, THEN conjunct2, THEN conjunct2, THEN conjunct1, THEN mp, OF h4])
  have h5: "quick_sort_rec (\<lambda>k. 7) 0 1 3 by_value (mem0 [5, 1, 4, 3::int]) = Return ((mem0 [5, 1, 3, 4::int])\<lparr>rand_next := 2, compar_calls := 3, rec_calls := [(1, 3), (1, 2), (1, 1), (3, 2), (4, 3)]\<rparr>)"
    by code_simp
  have c5: "mset (arr ((mem0 [5, 1, 3, 4::int])\<lparr>rand_next := 2, compar_calls := 3, rec_calls := [(1, 3), (1, 2), (1, 1), (3, 2), (4, 3)]\<rparr>)) = mset (arr (mem0 [5, 1, 4, 3::int]))"
    by (rule engine_preserves_references[where a="0" and b="1" and s="(mem0 [5, 1, 4, 3::int])" and low="1" and high="3" and rnd="(\<lambda>k. 7)" and base="0" and compar="by_value" and middle_i="2" and nitems="4" and alloc="(\<lambda>k. True)" and bp="(Some 0)" and cp="(Some by_value)" and s'="((mem0 [5, 1, 3, 4::int])\<lparr>rand_next := 2, compar_calls := 3, rec_calls := [(1, 3), (1, 2), (1, 1), (3, 2), (4, 3)]\<rparr>)",
          THEN conjunct2, THEN conjunct2, THEN conjunct2, THEN conjunct2, THEN conjunct1, THEN mp, OF h5])
  have h6: "quick_sort (\<lambda>k. 7) (Some 0) 4 (Some by_value) (mem0 [5, 1, 4, 3::int]) = Return ((mem0 [1, 3, 4, 5::int])\<lparr>rand_next := 2, compar_calls := 4, rec_calls := [(0, 3), (0, 0), (2, 3), (2, 2), (4, 3)]\<rparr>)"
    by code_simp
  have c6: "mset (arr ((mem0 [1, 3, 4, 5::int])\<lparr>rand_next := 2, compar_calls := 4, rec_calls := [(0, 3), (0, 0), (2, 3), (2, 2), (4, 3)]\<rparr>)) = mset (arr (mem0 [5, 1, 4, 3::int]))"
    by (rule engine_preserves_references[where a="0" and b="1" and s="(mem0 [5, 1, 4, 3::int])" and low="1" and high="3" and rnd="(\<lambda>k. 7)" and base="0" and compar="by_value" and middle_i="2" and nitems="4" and alloc="(\<lambda>k. True)" and bp="(Some 0)" and cp="(Some by_value)" and s'="((mem0 [1, 3, 4, 5::int])\<lparr>rand_next := 2, compar_calls := 4, rec_calls := [(0, 3), (0, 0), (2, 3), (2, 2), (4, 3)]\<rparr>)",
          THEN conjunct2, THEN conjunct2, THEN conjunct2, THEN conjunct2, THEN conjunct2, THEN conjunct1, THEN mp, OF h6])
  have h7: "merge_sort_rec (\<lambda>k. True) 0 4 by_value (mem0 [5, 1, 4, 3::int]) = Return ((mem0 [1, 3, 4, 5::int])\<lparr>malloc_next := 3, compar_calls := 5\<rparr>) \<or> merge_sort_rec (\<lambda>k. True) 0 4 by_value (mem0 [5, 1, 4, 3::int]) = Exit ((mem0 [1, 3, 4, 5::int])\<lparr>malloc_next := 3, compar_calls := 5\<rparr>)"
    by code_simp
  have c7: "mset (arr ((mem0 [1, 3, 4, 5::int])\<lparr>malloc_next := 3, compar_calls := 5\<rparr>)) = mset (arr (mem0 [5, 1, 4, 3::int]))"
    by (rule engine_preserves_references[where a="0" and b="1" and s="(mem0 [5, 1, 4, 3::int])" and low="1" and high="3" and rnd="(\<lambda>k. 7)" and base="0" and compar="by_value" and middle_i="2" and nitems="4" and alloc="(\<lambda>k. True)" and bp="(Some 0)" and cp="(Some by_value)" and s'="((mem0 [1, 3, 4, 5::int])\<lparr>malloc_next := 3, compar_calls := 5\<rparr>)",
          THEN conjunct2, THEN conjunct2, THEN conjunct2, THEN conjunct2, THEN conjunct2, THEN conjunct2, THEN conjunct1, THEN mp, OF h7])
  have h8: "merge_sort (\<lambda>k. k = 0) (Some 0) 4 (Some by_value) (mem0 [5, 1, 4, 3::int]) = Return ((mem0 [1, 5, 4, 3::int])\<lparr>malloc_next := 2, compar_calls := 1, stderr := [''merge: memory allocation failed'' @ [CHR 0x0A]]\<rparr>) \<or> merge_sort (\<lambda>k. k = 0) (Some 0) 4 (Some by_value) (mem0 [5, 1, 4, 3::int]) = Exit ((mem0 [1, 5, 4, 3::int])\<lparr>malloc_next := 2, compar_calls := 1, stderr := [''merge: memory allocation failed'' @ [CHR 0x0A]]\<rparr>)"
    by code_simp
  have c8: "mset (arr ((mem0 [1, 5, 4, 3::int])\<lparr>malloc_next := 2, compar_calls := 1, stderr := [''merge: memory allocation failed'' @ [CHR 0x0A]]\<rparr>)) = mset (arr (mem0 [5, 1, 4, 3::int]))"
    by (rule engine_preserves_references[where a="0" and b="1" and s="(mem0 [5, 1, 4, 3::int])" and low="1" and high="3" and rnd="(\<lambda>k. 7)" and base="0" and compar="by_value" and middle_i="2" and nitems="4" and alloc="(\<lambda>k. k = 0)" and bp="(Some 0)" and cp="(Some by_value)" and s'="((mem0 [1, 5, 4, 3::int])\<lparr>malloc_next := 2, compar_calls := 1, stderr := [''merge: memory allocation failed'' @ [CHR 0x0A]]\<rparr>)",
          THEN conjunct2, THEN conjunct2, THEN conjunct2, THEN conjunct2, THEN conjunct2, THEN conjunct2, THEN conjunct2, THEN conjunct1, THEN mp, OF h8])
  have c9: "(\<exists>s'. swap 0 1 (mem0 [5, 1, 4, 3::int]) = Return s')"
    by (rule engine_preserves_references[where a="0" and b="1" and s="(mem0 [5, 1, 4, 3::int])" and low="1" and high="3" and rnd="(\<lambda>k. 7)" and base="0" and compar="by_value" and middle_i="2" and nitems="4" and alloc="(\<lambda>k. True)" and bp="(Some 0)" and cp="(Some by_value)",
          THEN conjunct2, THEN conjunct2, THEN conjunct2, THEN conjunct2, THEN conjunct2, THEN conjunct2, THEN conjunct2, THEN conjunct2, THEN conjunct1, THEN mp]) (simp add: mem0_def)
  have c10: "(\<exists>s'. choose_random_pivot (\<lambda>k. 7) 0 1 3 (mem0 [5, 1, 4, 3::int]) = Return s'
          \<and> mset (take (3 + 1 - 1) (drop (0 + 1) (arr s'))) =
              mset (take (3 + 1 - 1) (drop (0 + 1) (arr (mem0 [5, 1, 4, 3::int])))))"
    by (rule engine_preserves_references[where a="0" and b="1" and s="(mem0 [5, 1, 4, 3::int])" and low="1" and high="3" and rnd="(\<lambda>k. 7)" and base="0" and compar="by_value" and middle_i="2" and nitems="4" and alloc="(\<lambda>k. True)" and bp="(Some 0)" and cp="(Some by_value)",
          THEN conjunct2, THEN conjunct2, THEN conjunct2, THEN conjunct2, THEN conjunct2, THEN conjunct2, THEN conjunct2, THEN conjunct2, THEN conjunct2, THEN conjunct1, THEN mp]) (simp add: mem0_def)
  have c11: "(\<exists>s' i. partition_c 0 1 3 by_value (mem0 [5, 1, 4, 3::int]) = Return (s', i)
          \<and> mset (take (3 + 1 - 1) (drop (0 + 1) (arr s'))) =
              mset (take (3 + 1 - 1) (drop (0 + 1) (arr (mem0 [5, 1, 4, 3::int])))))"
    by (rule engine_preserves_references[where a="0" and b="1" and s="(mem0 [5, 1, 4, 3::int])" and low="1" and high="3" and rnd="(\<lambda>k. 7)" and base="0" and compar="by_value" and middle_i="2" and nitems="4" and alloc="(\<lambda>k. True)" and bp="(Some 0)" and cp="(Some by_value)",
          THEN conjunct2, THEN conjunct2, THEN conjunct2, THEN conjunct2, THEN conjunct2, THEN conjunct2, THEN conjunct2, THEN conjunct2, THEN conjunct2, THEN conjunct2, THEN conjunct1, THEN mp]) (simp add: mem0_def)
  have c12: "(\<exists>s'. merge (\<lambda>k. True) 0 4 2 by_value (mem0 [5, 1, 4, 3::int]) = Return s'
          \<and> mset (take 4 (drop 0 (arr s'))) = mset (take 4 (drop 0 (arr (mem0 [5, 1, 4, 3::int])))))"
    by (rule engine_preserves_references[where a="0" and b="1" and s="(mem0 [5, 1, 4, 3::int])" and low="1" and high="3" and rnd="(\<lambda>k. 7)" and base="0" and compar="by_value" and middle_i="2" and nitems="4" and alloc="(\<lambda>k. True)" and bp="(Some 0)" and cp="(Some by_value)",
          THEN conjunct2, THEN conjunct2, THEN conjunct2, THEN conjunct2, THEN conjunct2, THEN conjunct2, THEN conjunct2, THEN conjunct2, THEN conjunct2, THEN conjunct2, THEN conjunct2, THEN mp]) (simp add: mem0_def)
  show ?thesis
    by (intro conjI h1 c1 h2 c2 h3 c3 h4 c4 h5 c5 h6 c6 h7 c7 h8 c8 c9 c10 c11 c12)
qed

text \<open>
  C10.  For every range \<open>[low, high]\<close> with \<open>low \<le> high\<close> whose length
  \<open>high - low + 1\<close> is a positive \<^verbatim>\<open>int\<close> (at most \<open>2^31 - 1\<close>), and every value \<open>r \<ge> 0\<close>
  returned by \<^verbatim>\<open>rand()\<close>, the index \<^verbatim>\<open>pivot_index\<close> computed by
  \<^verbatim>\<open>choose_random_pivot\<close> lies in \<open>[low, high]\<close>; so both accesses \<^verbatim>\<open>base[pivot_index]\<close>
  and \<^verbatim>\<open>base[high]\<close> are inside the array whenever the range is, and the call returns
  with these two references exchanged and nothing else changed in the array (one random
  value is consumed).
\<close>

theorem choose_random_pivot_in_bounds:
  assumes "low \<le> high" "int (high - low + 1) \<le> 2 ^ 31 - 1" "high < 2 ^ 64"
    and "0 \<le> rnd (rand_next s)" "base + high < length (arr s)"
  shows "\<exists>p. pivot_index_of (rnd (rand_next s)) low high = Some p
           \<and> low \<le> p \<and> p \<le> high
           \<and> base + p < length (arr s) \<and> base + high < length (arr s)
           \<and> choose_random_pivot rnd base low high s =
                Return (s\<lparr>arr := (arr s)[base + p := arr s ! (base + high),
                                          base + high := arr s ! (base + p)],
                          rand_next := rand_next s + 1\<rparr>)"
proof -
  have "int (high - low + 1) < 2 ^ 32" using assms(2) by simp
  then have h32: "high - low + 1 < 2 ^ 32" by (metis of_nat_less_iff of_nat_numeral of_nat_power)
  from choose_random_pivot_spec[where rnd=rnd and s=s, OF assms(1) h32 assms(3,4,5)]
  obtain p where p: "pivot_index_of (rnd (rand_next s)) low high = Some p" "low \<le> p" "p \<le> high"
    "choose_random_pivot rnd base low high s =
                Return (s\<lparr>arr := (arr s)[base + p := arr s ! (base + high),
                                          base + high := arr s ! (base + p)],
                          rand_next := rand_next s + 1\<rparr>)" by blast
  moreover have "base + p < length (arr s)" using p(3) assms(5) by simp
  ultimately show ?thesis using assms(5) by blast
qed

theorem choose_random_pivot_in_bounds_witness:
  "(1::nat) \<le> 3 \<and> int (3 - 1 + 1) \<le> 2 ^ 31 - 1 \<and> (3::nat) < 2 ^ 64
   \<and> 0 \<le> (\<lambda>k. 7::int) (rand_next (mem0 [5, 1, 4, 3::int]))
   \<and> 0 + 3 < length (arr (mem0 [5, 1, 4, 3::int]))
   \<and> pivot_index_of 7 1 3 = Some 2
   \<and> choose_random_pivot (\<lambda>k. 7) 0 1 3 (mem0 [5, 1, 4, 3::int]) =
        Return ((mem0 [5, 1, 3, 4])\<lparr>rand_next := 1\<rparr>)
   \<and> (\<exists>p. pivot_index_of ((\<lambda>k. 7) (rand_next (mem0 [5, 1, 4, 3::int]))) 1 3 = Some p
           \<and> 1 \<le> p \<and> p \<le> 3
           \<and> 0 + p < length (arr (mem0 [5, 1, 4, 3::int]))
           \<and> 0 + 3 < length (arr (mem0 [5, 1, 4, 3::int]))
           \<and> choose_random_pivot (\<lambda>k. 7) 0 1 3 (mem0 [5, 1, 4, 3::int]) =
                Return ((mem0 [5, 1, 4, 3::int])
                   \<lparr>arr := (arr (mem0 [5, 1, 4, 3::int]))
                       [0 + p := arr (mem0 [5, 1, 4, 3::int]) ! (0 + 3),
                        0 + 3 := arr (mem0 [5, 1, 4, 3::int]) ! (0 + p)],
                    rand_next := rand_next (mem0 [5, 1, 4, 3::int]) + 1\<rparr>))"
proof -
  have h1: "(1::nat) \<le> 3" by simp
  have h2: "int (3 - 1 + 1) \<le> 2 ^ 31 - 1" by simp
  have h3: "(3::nat) < 2 ^ 64" by simp
  have h4: "0 \<le> (\<lambda>k. 7::int) (rand_next (mem0 [5, 1, 4, 3::int]))" by simp
  have h5: "0 + 3 < length (arr (mem0 [5, 1, 4, 3::int]))" by (simp add: mem0_def)
  have r1: "pivot_index_of 7 1 3 = Some 2"
    by (simp add: pivot_index_of_def c_rem_def to_int_def to_size_t_def)
  have r2: "choose_random_pivot (\<lambda>k. 7) 0 1 3 (mem0 [5, 1, 4, 3::int]) =
        Return ((mem0 [5, 1, 3, 4])\<lparr>rand_next := 1\<rparr>)"
    by code_simp
  show ?thesis
    by (intro conjI h1 h2 h3 h4 h5 r1 r2
          choose_random_pivot_in_bounds[where rnd="\<lambda>k. 7", OF h1 h2 h3 h4 h5])
qed

end
